theory Spec2Isabelle
  imports Main "HOL-Library.AList" "HOL-Library.List_Lexorder" "HOL-Library.Char_ord"
    "HOL-Library.Multiset"
begin

section \<open>JavaScript values and containers\<close>

text \<open>
  The diff engine (\<^verbatim>\<open>diffSchemas\<close> and its helpers) and \<^verbatim>\<open>computeStats\<close> are pure
  functions over arrays of rows. Strings are modelled as \<^typ>\<open>string\<close>: a \<^typ>\<open>char\<close>
  stands for one code unit in the range 0..255, and the order on strings
  (\<open>List_Lexorder\<close> over \<open>Char_ord\<close>) is the code-unit order that \<^verbatim>\<open>Array.prototype.sort\<close>
  uses by default. Numbers are the integers a catalog column holds.
\<close>

datatype js_error = TypeError

datatype jsval =
    JUndefined
  | JNull
  | JBool bool
  | JNum int
  | JStr string
  | JArr "jsval list"

type_synonym jsprops = "(string \<times> jsval) list"

fun join :: "string \<Rightarrow> string list \<Rightarrow> string" where
  "join sep [] = []"
| "join sep [x] = x"
| "join sep (x # y # ys) = x @ sep @ join sep (y # ys)"

function digits :: "int \<Rightarrow> string" where
  "digits n = (if n < 10 then [''0123456789'' ! nat n]
               else digits (n div 10) @ [''0123456789'' ! nat (n mod 10)])"
  by pat_completeness auto
termination
  by (relation "measure nat") auto

declare digits.simps [simp del]

definition num_to_string :: "int \<Rightarrow> string" where
  "num_to_string n = (if n < 0 then CHR ''-'' # digits (- n) else digits n)"

text \<open>\<^verbatim>\<open>String(v)\<close>; an array prints as its elements joined by commas, with
  \<^verbatim>\<open>null\<close> and \<^verbatim>\<open>undefined\<close> elements printed as nothing.\<close>

fun to_String :: "jsval \<Rightarrow> string" where
  "to_String JUndefined = ''undefined''"
| "to_String JNull = ''null''"
| "to_String (JBool b) = (if b then ''true'' else ''false'')"
| "to_String (JNum n) = num_to_string n"
| "to_String (JStr s) = s"
| "to_String (JArr xs) =
     join '','' (map (\<lambda>x. if x = JNull \<or> x = JUndefined then [] else to_String x) xs)"

definition is_white_space :: "char \<Rightarrow> bool" where
  "is_white_space c \<longleftrightarrow>
     c \<in> set [CHR 0x09, CHR 0x0A, CHR 0x0B, CHR 0x0C, CHR 0x0D, CHR 0x20, CHR 0xA0]"

definition trim :: "string \<Rightarrow> string" where
  "trim s = rev (dropWhile is_white_space (rev (dropWhile is_white_space s)))"

subsection \<open>\<^verbatim>\<open>JSON.stringify\<close>\<close>

definition hex_digit :: "nat \<Rightarrow> char" where
  "hex_digit k = ''0123456789abcdef'' ! k"

definition json_escape :: "char \<Rightarrow> string" where
  "json_escape c =
     (if c = CHR 0x22 then [CHR 0x5C, CHR 0x22]
      else if c = CHR 0x5C then [CHR 0x5C, CHR 0x5C]
      else if c = CHR 0x08 then [CHR 0x5C, CHR ''b'']
      else if c = CHR 0x0C then [CHR 0x5C, CHR ''f'']
      else if c = CHR 0x0A then [CHR 0x5C, CHR ''n'']
      else if c = CHR 0x0D then [CHR 0x5C, CHR ''r'']
      else if c = CHR 0x09 then [CHR 0x5C, CHR ''t'']
      else if (of_char c :: nat) < 32
        then [CHR 0x5C, CHR ''u'', CHR ''0'', CHR ''0'',
              hex_digit (of_char c div 16), hex_digit (of_char c mod 16)]
      else [c])"

definition json_quote :: "string \<Rightarrow> string" where
  "json_quote s = CHR 0x22 # concat (map json_escape s) @ [CHR 0x22]"

text \<open>The serialisation of a value in array-element position, where \<^verbatim>\<open>undefined\<close>
  prints as \<^verbatim>\<open>null\<close>.\<close>

fun json_value :: "jsval \<Rightarrow> string" where
  "json_value JUndefined = ''null''"
| "json_value JNull = ''null''"
| "json_value (JBool b) = (if b then ''true'' else ''false'')"
| "json_value (JNum n) = num_to_string n"
| "json_value (JStr s) = json_quote s"
| "json_value (JArr xs) = ''['' @ join '','' (map json_value xs) @ '']''"

text \<open>The serialisation of an object literal: properties in the order written, a
  property whose value is \<^verbatim>\<open>undefined\<close> left out.\<close>

definition json_object :: "jsprops \<Rightarrow> string" where
  "json_object props =
     ''{'' @ join '',''
        (map (\<lambda>(k, v). json_quote k @ '':'' @ json_value v)
          (filter (\<lambda>(k, v). v \<noteq> JUndefined) props)) @ ''}''"

definition json_string_array :: "string list \<Rightarrow> string" where
  "json_string_array xs = json_value (JArr (map JStr xs))"

subsection \<open>\<^verbatim>\<open>Set\<close> and \<^verbatim>\<open>Map\<close>\<close>

text \<open>A \<^verbatim>\<open>Set\<close> of strings is the list of its members in insertion order; adding a
  member already present changes nothing.\<close>

definition set_add :: "string list \<Rightarrow> string \<Rightarrow> string list" where
  "set_add s x = (if x \<in> set s then s else s @ [x])"

definition new_Set :: "string list \<Rightarrow> string list" where
  "new_Set xs = foldl set_add [] xs"

definition set_has :: "string list \<Rightarrow> string \<Rightarrow> bool" where
  "set_has s x \<longleftrightarrow> x \<in> set s"

text \<open>A \<^verbatim>\<open>Map\<close> from strings to strings is the list of its entries in insertion order.
  Setting a key already present replaces the value and keeps the entry's position,
  which is what \<open>AList.update\<close> does.\<close>

type_synonym jsmap = "(string \<times> string) list"

definition new_Map :: "(string \<times> string) list \<Rightarrow> jsmap" where
  "new_Map entries = foldl (\<lambda>m (k, v). AList.update k v m) [] entries"

definition map_keys :: "jsmap \<Rightarrow> string list" where
  "map_keys m = map fst m"

definition map_has :: "jsmap \<Rightarrow> string \<Rightarrow> bool" where
  "map_has m k \<longleftrightarrow> map_of m k \<noteq> None"

definition map_get :: "jsmap \<Rightarrow> string \<Rightarrow> jsval" where
  "map_get m k = (case map_of m k of Some v \<Rightarrow> JStr v | None \<Rightarrow> JUndefined)"

subsection \<open>Plain objects used as dictionaries\<close>

text \<open>
  \<^verbatim>\<open>groupBy\<close>, \<^verbatim>\<open>buildMap\<close> and the result of \<^verbatim>\<open>diffColumns\<close> use an object literal
  \<^verbatim>\<open>{}\<close> as a dictionary. Its own properties are an association list in creation
  order. Reading \<^verbatim>\<open>obj[key]\<close> falls back to \<^verbatim>\<open>Object.prototype\<close> when the object has
  no own property of that name, and every property of \<^verbatim>\<open>Object.prototype\<close> is a
  function or an object, hence truthy and without the array methods.
\<close>

type_synonym 'v jsobj = "(string \<times> 'v) list"

definition object_prototype_names :: "string list" where
  "object_prototype_names =
     [''constructor'', ''__defineGetter__'', ''__defineSetter__'', ''hasOwnProperty'',
      ''__lookupGetter__'', ''__lookupSetter__'', ''isPrototypeOf'',
      ''propertyIsEnumerable'', ''toString'', ''valueOf'', ''__proto__'',
      ''toLocaleString'']"

datatype 'v lookup = Own 'v | Inherited | Missing

definition obj_get :: "'v jsobj \<Rightarrow> string \<Rightarrow> 'v lookup" where
  "obj_get obj k =
     (case map_of obj k of
        Some v \<Rightarrow> Own v
      | None \<Rightarrow> if k \<in> set object_prototype_names then Inherited else Missing)"

definition obj_set :: "'v jsobj \<Rightarrow> string \<Rightarrow> 'v \<Rightarrow> 'v jsobj" where
  "obj_set obj k v = AList.update k v obj"

text \<open>\<^verbatim>\<open>Object.keys\<close> lists the own keys that are array indices (canonical decimal
  numerals below \<open>2^32 - 1 = 4294967295\<close>) in ascending numeric order, then the others in creation
  order.\<close>

definition is_digit :: "char \<Rightarrow> bool" where
  "is_digit c \<longleftrightarrow> CHR ''0'' \<le> c \<and> c \<le> CHR ''9''"

definition decimal_value :: "string \<Rightarrow> int" where
  "decimal_value s = foldl (\<lambda>a c. 10 * a + (of_char c - 48)) 0 s"

definition is_array_index :: "string \<Rightarrow> bool" where
  "is_array_index s \<longleftrightarrow>
     s \<noteq> [] \<and> list_all is_digit s \<and> (s = ''0'' \<or> hd s \<noteq> CHR ''0'')
     \<and> decimal_value s < 4294967295"

definition Object_keys :: "'v jsobj \<Rightarrow> string list" where
  "Object_keys obj =
     sort_key decimal_value (filter is_array_index (map fst obj))
     @ filter (\<lambda>k. \<not> is_array_index k) (map fst obj)"

definition Object_values :: "'v jsobj \<Rightarrow> 'v list" where
  "Object_values obj =
     concat (map (\<lambda>k. case map_of obj k of Some v \<Rightarrow> [v] | None \<Rightarrow> []) (Object_keys obj))"

section \<open>Schema snapshots\<close>

text \<open>
  A snapshot is what \<^verbatim>\<open>extractSchema\<close> returns: eight arrays of rows. The rows carry the
  properties the diff engine reads; the identity properties are catalog names, hence
  strings, and the other properties may be \<^verbatim>\<open>null\<close> or absent (\<open>JUndefined\<close>).
\<close>

record table_row =
  table_name :: string

record column_row =
  col_table_name :: string
  column_name :: string
  data_type :: jsval
  udt_name :: jsval
  character_maximum_length :: jsval
  numeric_precision :: jsval
  numeric_scale :: jsval
  is_nullable :: jsval
  column_default :: jsval
  is_identity :: jsval
  identity_generation :: jsval
  is_generated :: jsval
  generation_expression :: jsval

record index_row =
  tablename :: string
  indexname :: string
  indexdef :: string

record fk_row =
  fk_table_name :: string
  constraint_name :: string
  fk_column_name :: string
  foreign_table_name :: string
  foreign_column_name :: string

record enum_row =
  enum_name :: string
  enum_value :: string

record policy_row =
  pol_tablename :: string
  policyname :: string
  permissive :: jsval
  roles :: jsval
  cmd :: jsval
  qual :: jsval
  with_check :: jsval

record function_row =
  function_name :: string
  arguments :: string
  return_type :: jsval
  kind :: jsval
  security_definer :: jsval
  language :: jsval

record trigger_row =
  event_object_table :: string
  trigger_name :: string
  event_manipulation :: string
  action_statement :: jsval
  action_timing :: jsval
  action_orientation :: jsval

record snapshot =
  tables :: "table_row list"
  columns :: "column_row list"
  indexes :: "index_row list"
  foreignKeys :: "fk_row list"
  enums :: "enum_row list"
  policies :: "policy_row list"
  db_functions :: "function_row list"
  triggers :: "trigger_row list"

section \<open>The diff result\<close>

record names_diff =
  onlyInA :: "string list"
  onlyInB :: "string list"

record tables_result = names_diff +
  common :: "string list"

record 'c category_diff = names_diff +
  changed :: "'c list"

record field_diff =
  field :: string
  valueA :: jsval
  valueB :: jsval

record column_change =
  column :: string
  differences :: "field_diff list"

record enum_change =
  name :: string
  valuesA :: "string list"
  valuesB :: "string list"

text \<open>The changed entries of the keyed categories are object literals whose property
  names differ from routine to routine, so they are kept as property lists.\<close>

record DiffResult =
  labelA :: string
  labelB :: string
  tables_diff :: tables_result
  columns_diff :: "column_change category_diff jsobj"
  indexes_diff :: "jsprops category_diff"
  foreignKeys_diff :: "jsprops category_diff"
  enums_diff :: "enum_change category_diff"
  policies_diff :: "jsprops category_diff"
  functions_diff :: "jsprops category_diff"
  triggers_diff :: "jsprops category_diff"

section \<open>The diff engine\<close>

subsection \<open>Tables\<close>

definition diffTables :: "snapshot \<Rightarrow> snapshot \<Rightarrow> tables_result" where
  "diffTables a b =
     (let namesA = new_Set (map table_name (tables a));
          namesB = new_Set (map table_name (tables b))
      in \<lparr> onlyInA = sort (filter (\<lambda>n. \<not> set_has namesB n) namesA),
           onlyInB = sort (filter (\<lambda>n. \<not> set_has namesA n) namesB),
           common = sort (filter (\<lambda>n. set_has namesB n) namesA) \<rparr>)"

subsection \<open>The keyed categories\<close>

text \<open>
  \<^verbatim>\<open>diffIndexes\<close>, \<^verbatim>\<open>diffForeignKeys\<close>, \<^verbatim>\<open>diffPolicies\<close>, \<^verbatim>\<open>diffFunctions\<close> and
  \<^verbatim>\<open>diffTriggers\<close> repeat one body; they differ in the key function, the value
  function and the names of the two value properties of a changed entry.
  \<open>keyed_section\<close> is that body, from the two maps on.
\<close>

definition keyed_section :: "string \<Rightarrow> string \<Rightarrow> jsmap \<Rightarrow> jsmap \<Rightarrow> jsprops category_diff" where
  "keyed_section propA propB mapA mapB =
     \<lparr> onlyInA = sort (filter (\<lambda>k. \<not> map_has mapB k) (map_keys mapA)),
       onlyInB = sort (filter (\<lambda>k. \<not> map_has mapA k) (map_keys mapB)),
       changed =
         map (\<lambda>k. [(''key'', JStr k), (propA, map_get mapA k), (propB, map_get mapB k)])
           (filter (\<lambda>k. map_has mapB k \<and> map_get mapA k \<noteq> map_get mapB k) (map_keys mapA)) \<rparr>"

definition index_key :: "index_row \<Rightarrow> string" where
  "index_key i = tablename i @ ''::'' @ indexname i"

definition diffIndexes :: "snapshot \<Rightarrow> snapshot \<Rightarrow> jsprops category_diff" where
  "diffIndexes a b =
     keyed_section ''defA'' ''defB''
       (new_Map (map (\<lambda>i. (index_key i, indexdef i)) (indexes a)))
       (new_Map (map (\<lambda>i. (index_key i, indexdef i)) (indexes b)))"

definition fk_key :: "fk_row \<Rightarrow> string" where
  "fk_key fk = fk_table_name fk @ ''.'' @ constraint_name fk"

definition fk_val :: "fk_row \<Rightarrow> string" where
  "fk_val fk =
     fk_column_name fk @ ''->'' @ foreign_table_name fk @ ''.'' @ foreign_column_name fk"

definition diffForeignKeys :: "snapshot \<Rightarrow> snapshot \<Rightarrow> jsprops category_diff" where
  "diffForeignKeys a b =
     keyed_section ''valueA'' ''valueB''
       (new_Map (map (\<lambda>f. (fk_key f, fk_val f)) (foreignKeys a)))
       (new_Map (map (\<lambda>f. (fk_key f, fk_val f)) (foreignKeys b)))"

definition policy_key :: "policy_row \<Rightarrow> string" where
  "policy_key p = pol_tablename p @ ''::'' @ policyname p"

definition policy_val :: "policy_row \<Rightarrow> string" where
  "policy_val p =
     json_object [(''permissive'', permissive p), (''roles'', roles p), (''cmd'', cmd p),
                  (''qual'', qual p), (''with_check'', with_check p)]"

definition diffPolicies :: "snapshot \<Rightarrow> snapshot \<Rightarrow> jsprops category_diff" where
  "diffPolicies a b =
     keyed_section ''valueA'' ''valueB''
       (new_Map (map (\<lambda>p. (policy_key p, policy_val p)) (policies a)))
       (new_Map (map (\<lambda>p. (policy_key p, policy_val p)) (policies b)))"

definition function_key :: "function_row \<Rightarrow> string" where
  "function_key f = function_name f @ ''('' @ arguments f @ '')''"

definition function_val :: "function_row \<Rightarrow> string" where
  "function_val f =
     json_object [(''return_type'', return_type f), (''kind'', kind f),
                  (''security_definer'', security_definer f), (''language'', language f)]"

definition diffFunctions :: "snapshot \<Rightarrow> snapshot \<Rightarrow> jsprops category_diff" where
  "diffFunctions a b =
     keyed_section ''signatureA'' ''signatureB''
       (new_Map (map (\<lambda>f. (function_key f, function_val f)) (db_functions a)))
       (new_Map (map (\<lambda>f. (function_key f, function_val f)) (db_functions b)))"

definition trigger_key :: "trigger_row \<Rightarrow> string" where
  "trigger_key t =
     event_object_table t @ ''::'' @ trigger_name t @ ''::'' @ event_manipulation t"

definition trigger_val :: "trigger_row \<Rightarrow> string" where
  "trigger_val t =
     json_object [(''action_statement'', action_statement t),
                  (''action_timing'', action_timing t),
                  (''action_orientation'', action_orientation t)]"

definition diffTriggers :: "snapshot \<Rightarrow> snapshot \<Rightarrow> jsprops category_diff" where
  "diffTriggers a b =
     keyed_section ''valueA'' ''valueB''
       (new_Map (map (\<lambda>t. (trigger_key t, trigger_val t)) (triggers a)))
       (new_Map (map (\<lambda>t. (trigger_key t, trigger_val t)) (triggers b)))"

subsection \<open>Columns\<close>

text \<open>\<^verbatim>\<open>groupBy\<close>: when \<^verbatim>\<open>result[key]\<close> is inherited from \<^verbatim>\<open>Object.prototype\<close> it is
  truthy, no array is created, and \<^verbatim>\<open>result[key].push\<close> is not a function.\<close>

fun groupBy_loop :: "'a list \<Rightarrow> ('a \<Rightarrow> string) \<Rightarrow> 'a list jsobj \<Rightarrow> js_error + 'a list jsobj" where
  "groupBy_loop [] fn result = Inr result"
| "groupBy_loop (item # arr) fn result =
     (case obj_get result (fn item) of
        Missing \<Rightarrow> groupBy_loop arr fn (obj_set result (fn item) [item])
      | Own xs \<Rightarrow> groupBy_loop arr fn (obj_set result (fn item) (xs @ [item]))
      | Inherited \<Rightarrow> Inl TypeError)"

definition groupBy :: "'a list \<Rightarrow> ('a \<Rightarrow> string) \<Rightarrow> js_error + 'a list jsobj" where
  "groupBy arr fn = groupBy_loop arr fn []"

definition normalize_value :: "jsval \<Rightarrow> string" where
  "normalize_value v = (if v = JNull \<or> v = JUndefined then [] else trim (to_String v))"

definition column_fields :: "string list" where
  "column_fields =
     [''data_type'', ''udt_name'', ''character_maximum_length'',
      ''numeric_precision'', ''numeric_scale'', ''is_nullable'',
      ''column_default'', ''is_identity'', ''identity_generation'',
      ''is_generated'', ''generation_expression'']"

text \<open>\<^verbatim>\<open>a[f]\<close> on a column row.\<close>

definition col_get :: "column_row \<Rightarrow> string \<Rightarrow> jsval" where
  "col_get a f =
     (if f = ''data_type'' then data_type a
      else if f = ''udt_name'' then udt_name a
      else if f = ''character_maximum_length'' then character_maximum_length a
      else if f = ''numeric_precision'' then numeric_precision a
      else if f = ''numeric_scale'' then numeric_scale a
      else if f = ''is_nullable'' then is_nullable a
      else if f = ''column_default'' then column_default a
      else if f = ''is_identity'' then is_identity a
      else if f = ''identity_generation'' then identity_generation a
      else if f = ''is_generated'' then is_generated a
      else if f = ''generation_expression'' then generation_expression a
      else JUndefined)"

primrec compare_fields :: "string list \<Rightarrow> column_row \<Rightarrow> column_row \<Rightarrow> field_diff list" where
  "compare_fields [] a b = []"
| "compare_fields (f # fs) a b =
     (if normalize_value (col_get a f) \<noteq> normalize_value (col_get b f)
      then [\<lparr> field = f, valueA = col_get a f, valueB = col_get b f \<rparr>] else [])
     @ compare_fields fs a b"

text \<open>The arguments come from \<^verbatim>\<open>Array.prototype.find\<close>, which gives \<^verbatim>\<open>undefined\<close>
  (\<open>None\<close>) when no element matches; reading a property of \<^verbatim>\<open>undefined\<close> throws.\<close>

definition compareColumnDetails ::
  "column_row option \<Rightarrow> column_row option \<Rightarrow> js_error + field_diff list" where
  "compareColumnDetails a b =
     (case a of None \<Rightarrow> Inl TypeError
      | Some ra \<Rightarrow> (case b of None \<Rightarrow> Inl TypeError
                    | Some rb \<Rightarrow> Inr (compare_fields column_fields ra rb)))"

fun changed_columns ::
  "string list \<Rightarrow> string list \<Rightarrow> column_row list \<Rightarrow> column_row list
     \<Rightarrow> js_error + column_change list" where
  "changed_columns [] colNamesB colsA colsB = Inr []"
| "changed_columns (n # ns) colNamesB colsA colsB =
     (if \<not> set_has colNamesB n then changed_columns ns colNamesB colsA colsB
      else
        (case compareColumnDetails (find (\<lambda>c. column_name c = n) colsA)
                                   (find (\<lambda>c. column_name c = n) colsB) of
           Inl e \<Rightarrow> Inl e
         | Inr diffs \<Rightarrow>
             (case changed_columns ns colNamesB colsA colsB of
                Inl e \<Rightarrow> Inl e
              | Inr rest \<Rightarrow>
                  Inr ((if diffs \<noteq> [] then [\<lparr> column = n, differences = diffs \<rparr>] else [])
                       @ rest))))"

definition table_delta ::
  "column_row list \<Rightarrow> column_row list \<Rightarrow> js_error + column_change category_diff" where
  "table_delta colsA colsB =
     (let colNamesA = new_Set (map column_name colsA);
          colNamesB = new_Set (map column_name colsB)
      in case changed_columns colNamesA colNamesB colsA colsB of
           Inl e \<Rightarrow> Inl e
         | Inr ch \<Rightarrow>
             Inr \<lparr> onlyInA = filter (\<lambda>n. \<not> set_has colNamesB n) colNamesA,
                   onlyInB = filter (\<lambda>n. \<not> set_has colNamesA n) colNamesB,
                   changed = ch \<rparr>)"

text \<open>\<^verbatim>\<open>map[table] || []\<close>, followed by \<^verbatim>\<open>.map\<close> on the outcome.\<close>

definition cols_or_empty :: "column_row list jsobj \<Rightarrow> string \<Rightarrow> js_error + column_row list" where
  "cols_or_empty m table =
     (case obj_get m table of
        Own cs \<Rightarrow> Inr cs
      | Missing \<Rightarrow> Inr []
      | Inherited \<Rightarrow> Inl TypeError)"

fun diffColumns_loop ::
  "string list \<Rightarrow> column_row list jsobj \<Rightarrow> column_row list jsobj
     \<Rightarrow> column_change category_diff jsobj \<Rightarrow> js_error + column_change category_diff jsobj" where
  "diffColumns_loop [] mapA mapB result = Inr result"
| "diffColumns_loop (table # ts) mapA mapB result =
     (case cols_or_empty mapA table of
        Inl e \<Rightarrow> Inl e
      | Inr colsA \<Rightarrow>
          (case cols_or_empty mapB table of
             Inl e \<Rightarrow> Inl e
           | Inr colsB \<Rightarrow>
               (case table_delta colsA colsB of
                  Inl e \<Rightarrow> Inl e
                | Inr d \<Rightarrow>
                    diffColumns_loop ts mapA mapB
                      (if onlyInA d \<noteq> [] \<or> onlyInB d \<noteq> [] \<or> changed d \<noteq> []
                       then obj_set result table d else result))))"

definition diffColumns :: "snapshot \<Rightarrow> snapshot \<Rightarrow> js_error + column_change category_diff jsobj" where
  "diffColumns a b =
     (case groupBy (columns a) col_table_name of
        Inl e \<Rightarrow> Inl e
      | Inr mapA \<Rightarrow>
          (case groupBy (columns b) col_table_name of
             Inl e \<Rightarrow> Inl e
           | Inr mapB \<Rightarrow>
               diffColumns_loop (new_Set (Object_keys mapA @ Object_keys mapB)) mapA mapB []))"

subsection \<open>Enums\<close>

fun buildMap_loop :: "enum_row list \<Rightarrow> string list jsobj \<Rightarrow> js_error + string list jsobj" where
  "buildMap_loop [] m = Inr m"
| "buildMap_loop (e # es) m =
     (case obj_get m (enum_name e) of
        Missing \<Rightarrow> buildMap_loop es (obj_set m (enum_name e) [enum_value e])
      | Own vs \<Rightarrow> buildMap_loop es (obj_set m (enum_name e) (vs @ [enum_value e]))
      | Inherited \<Rightarrow> Inl TypeError)"

definition buildMap :: "enum_row list \<Rightarrow> js_error + string list jsobj" where
  "buildMap es = buildMap_loop es []"

text \<open>\<^verbatim>\<open>map[name].sort()\<close>.\<close>

definition sorted_values :: "string list jsobj \<Rightarrow> string \<Rightarrow> js_error + string list" where
  "sorted_values m n = (case obj_get m n of Own vs \<Rightarrow> Inr (sort vs) | _ \<Rightarrow> Inl TypeError)"

fun changed_enums ::
  "string list \<Rightarrow> string list \<Rightarrow> string list jsobj \<Rightarrow> string list jsobj
     \<Rightarrow> js_error + enum_change list" where
  "changed_enums [] namesB mapA mapB = Inr []"
| "changed_enums (n # ns) namesB mapA mapB =
     (if \<not> set_has namesB n then changed_enums ns namesB mapA mapB
      else
        (case sorted_values mapA n of
           Inl e \<Rightarrow> Inl e
         | Inr valsA \<Rightarrow>
             (case sorted_values mapB n of
                Inl e \<Rightarrow> Inl e
              | Inr valsB \<Rightarrow>
                  (case changed_enums ns namesB mapA mapB of
                     Inl e \<Rightarrow> Inl e
                   | Inr rest \<Rightarrow>
                       Inr ((if json_string_array valsA \<noteq> json_string_array valsB
                             then [\<lparr> name = n, valuesA = valsA, valuesB = valsB \<rparr>] else [])
                            @ rest)))))"

definition diffEnums :: "snapshot \<Rightarrow> snapshot \<Rightarrow> js_error + enum_change category_diff" where
  "diffEnums a b =
     (case buildMap (enums a) of
        Inl e \<Rightarrow> Inl e
      | Inr mapA \<Rightarrow>
          (case buildMap (enums b) of
             Inl e \<Rightarrow> Inl e
           | Inr mapB \<Rightarrow>
               (let namesA = new_Set (Object_keys mapA);
                    namesB = new_Set (Object_keys mapB)
                in case changed_enums namesA namesB mapA mapB of
                     Inl e \<Rightarrow> Inl e
                   | Inr ch \<Rightarrow>
                       Inr \<lparr> onlyInA = sort (filter (\<lambda>n. \<not> set_has namesB n) namesA),
                             onlyInB = sort (filter (\<lambda>n. \<not> set_has namesA n) namesB),
                             changed = ch \<rparr>)))"

subsection \<open>The orchestrator\<close>

definition diffSchemas :: "snapshot \<Rightarrow> snapshot \<Rightarrow> string \<Rightarrow> string \<Rightarrow> js_error + DiffResult" where
  "diffSchemas schemaA schemaB la lb =
     (case diffColumns schemaA schemaB of
        Inl e \<Rightarrow> Inl e
      | Inr cols \<Rightarrow>
          (case diffEnums schemaA schemaB of
             Inl e \<Rightarrow> Inl e
           | Inr ens \<Rightarrow>
               Inr \<lparr> labelA = la, labelB = lb,
                     tables_diff = diffTables schemaA schemaB,
                     columns_diff = cols,
                     indexes_diff = diffIndexes schemaA schemaB,
                     foreignKeys_diff = diffForeignKeys schemaA schemaB,
                     enums_diff = ens,
                     policies_diff = diffPolicies schemaA schemaB,
                     functions_diff = diffFunctions schemaA schemaB,
                     triggers_diff = diffTriggers schemaA schemaB \<rparr>))"

section \<open>The stats aggregator\<close>

record Stats =
  tablesOnlyA :: nat
  tablesOnlyB :: nat
  tablesCommon :: nat
  columnsOnlyA :: nat
  columnsOnlyB :: nat
  columnsChanged :: nat
  indexesOnlyA :: nat
  indexesOnlyB :: nat
  indexesChanged :: nat
  fksOnlyA :: nat
  fksOnlyB :: nat
  fksChanged :: nat
  enumsOnlyA :: nat
  enumsOnlyB :: nat
  enumsChanged :: nat
  policiesOnlyA :: nat
  policiesOnlyB :: nat
  policiesChanged :: nat
  functionsOnlyA :: nat
  functionsOnlyB :: nat
  functionsChanged :: nat
  triggersOnlyA :: nat
  triggersOnlyB :: nat
  triggersChanged :: nat

fun column_totals :: "column_change category_diff list \<Rightarrow> nat \<times> nat \<times> nat \<Rightarrow> nat \<times> nat \<times> nat" where
  "column_totals [] acc = acc"
| "column_totals (t # ts) (onlyA, onlyB, chg) =
     column_totals ts
       (onlyA + length (onlyInA t), onlyB + length (onlyInB t), chg + length (changed t))"

definition computeStats :: "DiffResult \<Rightarrow> Stats" where
  "computeStats diff =
     (case column_totals (Object_values (columns_diff diff)) (0, 0, 0) of
        (onlyA, onlyB, chg) \<Rightarrow>
          \<lparr> tablesOnlyA = length (onlyInA (tables_diff diff)),
            tablesOnlyB = length (onlyInB (tables_diff diff)),
            tablesCommon = length (common (tables_diff diff)),
            columnsOnlyA = onlyA, columnsOnlyB = onlyB, columnsChanged = chg,
            indexesOnlyA = length (onlyInA (indexes_diff diff)),
            indexesOnlyB = length (onlyInB (indexes_diff diff)),
            indexesChanged = length (changed (indexes_diff diff)),
            fksOnlyA = length (onlyInA (foreignKeys_diff diff)),
            fksOnlyB = length (onlyInB (foreignKeys_diff diff)),
            fksChanged = length (changed (foreignKeys_diff diff)),
            enumsOnlyA = length (onlyInA (enums_diff diff)),
            enumsOnlyB = length (onlyInB (enums_diff diff)),
            enumsChanged = length (changed (enums_diff diff)),
            policiesOnlyA = length (onlyInA (policies_diff diff)),
            policiesOnlyB = length (onlyInB (policies_diff diff)),
            policiesChanged = length (changed (policies_diff diff)),
            functionsOnlyA = length (onlyInA (functions_diff diff)),
            functionsOnlyB = length (onlyInB (functions_diff diff)),
            functionsChanged = length (changed (functions_diff diff)),
            triggersOnlyA = length (onlyInA (triggers_diff diff)),
            triggersOnlyB = length (onlyInB (triggers_diff diff)),
            triggersChanged = length (changed (triggers_diff diff)) \<rparr>)"

section \<open>Vocabulary of the properties\<close>

text \<open>A key that \<^verbatim>\<open>Object.prototype\<close> does not define.\<close>

definition safe_key :: "string \<Rightarrow> bool" where
  "safe_key k \<longleftrightarrow> k \<notin> set object_prototype_names"

text \<open>The column rows of one table, and the member values of one enum type, in
  snapshot order.\<close>

definition rows_of :: "string \<Rightarrow> column_row list \<Rightarrow> column_row list" where
  "rows_of t cs = filter (\<lambda>c. col_table_name c = t) cs"

definition values_of :: "string \<Rightarrow> enum_row list \<Rightarrow> string list" where
  "values_of n es = map enum_value (filter (\<lambda>e. enum_name e = n) es)"

text \<open>\<^verbatim>\<open>buildMap\<close> builds what \<^verbatim>\<open>groupBy\<close> on the type name builds, with each row
  replaced by its member value.\<close>

definition values_only :: "enum_row list jsobj \<Rightarrow> string list jsobj" where
  "values_only r = map (\<lambda>(k, xs). (k, map enum_value xs)) r"

text \<open>What the column diff reports for one table, written without the error
  plumbing: the differences of the first row named \<open>n\<close> on each side, and the
  three lists of a table entry.\<close>

definition column_delta :: "column_row list \<Rightarrow> column_row list \<Rightarrow> string \<Rightarrow> field_diff list" where
  "column_delta colsA colsB n =
     (case find (\<lambda>c. column_name c = n) colsA of
        None \<Rightarrow> []
      | Some ra \<Rightarrow>
          (case find (\<lambda>c. column_name c = n) colsB of
             None \<Rightarrow> []
           | Some rb \<Rightarrow> compare_fields column_fields ra rb))"

definition table_changes :: "column_row list \<Rightarrow> column_row list \<Rightarrow> column_change category_diff" where
  "table_changes colsA colsB =
     \<lparr> onlyInA = filter (\<lambda>n. n \<notin> column_name ` set colsB) (new_Set (map column_name colsA)),
       onlyInB = filter (\<lambda>n. n \<notin> column_name ` set colsA) (new_Set (map column_name colsB)),
       changed =
         map (\<lambda>n. \<lparr> column = n, differences = column_delta colsA colsB n \<rparr>)
           (filter (\<lambda>n. n \<in> column_name ` set colsB \<and> column_delta colsA colsB n \<noteq> [])
              (new_Set (map column_name colsA))) \<rparr>"

definition no_changes :: "'c category_diff \<Rightarrow> bool" where
  "no_changes d \<longleftrightarrow> onlyInA d = [] \<and> onlyInB d = [] \<and> changed d = []"

text \<open>The changed entries of the enum diff for the type names \<open>ns\<close>, written
  without the error plumbing.\<close>

definition enum_changes :: "enum_row list \<Rightarrow> enum_row list \<Rightarrow> string list \<Rightarrow> enum_change list" where
  "enum_changes esA esB ns =
     map (\<lambda>n. \<lparr> name = n, valuesA = sort (values_of n esA), valuesB = sort (values_of n esB) \<rparr>)
       (filter (\<lambda>n. n \<in> enum_name ` set esB \<and> sort (values_of n esA) \<noteq> sort (values_of n esB)) ns)"

text \<open>Whether a snapshot records column \<open>n\<close> for table \<open>t\<close>, and the first such row
  in snapshot order.\<close>

definition has_column :: "snapshot \<Rightarrow> string \<Rightarrow> string \<Rightarrow> bool" where
  "has_column s t n \<longleftrightarrow> (\<exists>c\<in>set (columns s). col_table_name c = t \<and> column_name c = n)"

definition first_column :: "snapshot \<Rightarrow> string \<Rightarrow> string \<Rightarrow> column_row option" where
  "first_column s t n = find (\<lambda>c. col_table_name c = t \<and> column_name c = n) (columns s)"

text \<open>\<^verbatim>\<open>diff.columns[t]\<close>, read as three empty lists when the table has no entry.\<close>

definition columns_entry :: "DiffResult \<Rightarrow> string \<Rightarrow> column_change category_diff" where
  "columns_entry d t =
     (case map_of (columns_diff d) t of
        Some e \<Rightarrow> e
      | None \<Rightarrow> \<lparr> onlyInA = [], onlyInB = [], changed = [] \<rparr>)"

text \<open>\<open>last_row keyFn rows k r\<close>: \<open>r\<close> is the last of \<open>rows\<close> whose identity key is \<open>k\<close>.\<close>

definition last_row :: "('r \<Rightarrow> string) \<Rightarrow> 'r list \<Rightarrow> string \<Rightarrow> 'r \<Rightarrow> bool" where
  "last_row keyFn rows k r \<longleftrightarrow>
     (\<exists>i<length rows. rows ! i = r \<and> keyFn r = k
        \<and> (\<forall>j. i < j \<and> j < length rows \<longrightarrow> keyFn (rows ! j) \<noteq> k))"

text \<open>The changed entries of a keyed category that carry key \<open>k\<close>.\<close>

definition entries_for :: "string \<Rightarrow> jsprops category_diff \<Rightarrow> jsprops list" where
  "entries_for k s = filter (\<lambda>e. map_of e ''key'' = Some (JStr k)) (changed s)"

text \<open>
  Last-wins for one keyed routine with key function \<open>keyFn\<close>, value function \<open>valFn\<close>
  and value property names \<open>propA\<close>, \<open>propB\<close>: a key of one side only is listed for
  that side, no key is reported twice, and for a key present on both sides the
  comparison runs on the values of the last row of each side.
\<close>

definition last_wins ::
  "('r \<Rightarrow> string) \<Rightarrow> ('r \<Rightarrow> string) \<Rightarrow> string \<Rightarrow> string \<Rightarrow> 'r list \<Rightarrow> 'r list
     \<Rightarrow> jsprops category_diff \<Rightarrow> bool" where
  "last_wins keyFn valFn propA propB rowsA rowsB s \<longleftrightarrow>
     set (onlyInA s) = keyFn ` set rowsA - keyFn ` set rowsB
     \<and> set (onlyInB s) = keyFn ` set rowsB - keyFn ` set rowsA
     \<and> distinct (map JStr (onlyInA s) @ map JStr (onlyInB s)
               @ map (\<lambda>e. case map_of e ''key'' of Some k \<Rightarrow> k | None \<Rightarrow> JUndefined) (changed s))
     \<and> (\<forall>k ra rb. last_row keyFn rowsA k ra \<and> last_row keyFn rowsB k rb \<longrightarrow>
           entries_for k s =
             (if valFn ra \<noteq> valFn rb
              then [[(''key'', JStr k), (propA, JStr (valFn ra)), (propB, JStr (valFn rb))]]
              else []))"

text \<open>Lexicographically sorted, without duplicates.\<close>

definition sorted_no_dups :: "string list \<Rightarrow> bool" where
  "sorted_no_dups xs \<longleftrightarrow> sorted xs \<and> distinct xs"

section \<open>Example snapshots\<close>

definition no_rows :: snapshot where
  "no_rows = \<lparr> tables = [], columns = [], indexes = [], foreignKeys = [], enums = [],
               policies = [], db_functions = [], triggers = [] \<rparr>"

definition text_column :: "string \<Rightarrow> string \<Rightarrow> string \<Rightarrow> column_row" where
  "text_column t n nullable =
     \<lparr> col_table_name = t, column_name = n, data_type = JStr ''text'', udt_name = JStr ''text'',
       character_maximum_length = JNull, numeric_precision = JNull, numeric_scale = JNull,
       is_nullable = JStr nullable, column_default = JNull, is_identity = JStr ''NO'',
       identity_generation = JNull, is_generated = JStr ''NEVER'',
       generation_expression = JNull \<rparr>"

definition fk_row1 :: fk_row where
  "fk_row1 = \<lparr> fk_table_name = ''orders'', constraint_name = ''orders_user_fk'',
               fk_column_name = ''user_id'', foreign_table_name = ''users'',
               foreign_column_name = ''id'' \<rparr>"

definition fk_row2 :: fk_row where
  "fk_row2 = \<lparr> fk_table_name = ''orders'', constraint_name = ''orders_user_fk'',
               fk_column_name = ''tenant_id'', foreign_table_name = ''users'',
               foreign_column_name = ''tenant_id'' \<rparr>"

definition fn_row :: "bool \<Rightarrow> function_row" where
  "fn_row secdef =
     \<lparr> function_name = ''f'', arguments = ''integer'', return_type = JStr ''integer'',
       kind = JStr ''function'', security_definer = JBool secdef, language = JStr ''sql'' \<rparr>"

text \<open>Two snapshots in the spirit of a staging and a production database. \<open>staging\<close>
  repeats the column \<^verbatim>\<open>users.email\<close> and the foreign key \<^verbatim>\<open>orders.orders_user_fk\<close>.\<close>

definition staging :: snapshot where
  "staging =
     \<lparr> tables = [\<lparr> table_name = ''users'' \<rparr>, \<lparr> table_name = ''orders'' \<rparr>],
       columns = [text_column ''users'' ''name'' ''YES'', text_column ''users'' ''zip'' ''YES'',
                  text_column ''users'' ''email'' ''YES'', text_column ''users'' ''email'' ''NO'',
                  text_column ''users'' ''city'' ''YES'', text_column ''orders'' ''note'' ''YES''],
       indexes = [\<lparr> tablename = ''users'', indexname = ''users_pkey'',
                    indexdef = ''CREATE UNIQUE INDEX users_pkey ON public.users USING btree (id)'' \<rparr>],
       foreignKeys = [fk_row1, fk_row2],
       enums = [\<lparr> enum_name = ''status'', enum_value = ''active'' \<rparr>,
                \<lparr> enum_name = ''status'', enum_value = ''inactive'' \<rparr>,
                \<lparr> enum_name = ''mood'', enum_value = ''sad'' \<rparr>,
                \<lparr> enum_name = ''mood'', enum_value = ''happy'' \<rparr>],
       policies = [],
       db_functions = [fn_row True],
       triggers = [] \<rparr>"

definition production :: snapshot where
  "production =
     \<lparr> tables = [\<lparr> table_name = ''users'' \<rparr>, \<lparr> table_name = ''payments'' \<rparr>],
       columns = [text_column ''users'' ''email'' ''NO'', text_column ''users'' ''name'' ''YES'',
                  text_column ''users'' ''phone'' ''YES'', text_column ''orders'' ''note'' ''YES''],
       indexes = [\<lparr> tablename = ''users'', indexname = ''users_pkey'',
                    indexdef = ''CREATE UNIQUE INDEX users_pkey ON public.users USING btree (uid)'' \<rparr>],
       foreignKeys = [fk_row1],
       enums = [\<lparr> enum_name = ''status'', enum_value = ''inactive'' \<rparr>,
                \<lparr> enum_name = ''status'', enum_value = ''active'' \<rparr>,
                \<lparr> enum_name = ''status'', enum_value = ''archived'' \<rparr>,
                \<lparr> enum_name = ''mood'', enum_value = ''happy'' \<rparr>,
                \<lparr> enum_name = ''mood'', enum_value = ''sad'' \<rparr>],
       policies = [],
       db_functions = [fn_row False],
       triggers = [] \<rparr>"

text \<open>What the engine answers on them (lemma \<open>staging_vs_production_eq\<close>).\<close>

definition staging_vs_production :: DiffResult where
  "staging_vs_production =
     \<lparr> labelA = ''staging'', labelB = ''production'',
       tables_diff = \<lparr> onlyInA = [''orders''], onlyInB = [''payments''], common = [''users''] \<rparr>,
       columns_diff =
         [(''users'',
           \<lparr> onlyInA = [''zip'', ''city''], onlyInB = [''phone''],
             changed =
               [\<lparr> column = ''email'',
                   differences =
                     [\<lparr> field = ''is_nullable'', valueA = JStr ''YES'', valueB = JStr ''NO'' \<rparr>] \<rparr>] \<rparr>)],
       indexes_diff =
         \<lparr> onlyInA = [], onlyInB = [],
           changed =
             [[(''key'', JStr ''users::users_pkey''),
               (''defA'', JStr ''CREATE UNIQUE INDEX users_pkey ON public.users USING btree (id)''),
               (''defB'', JStr ''CREATE UNIQUE INDEX users_pkey ON public.users USING btree (uid)'')]] \<rparr>,
       foreignKeys_diff =
         \<lparr> onlyInA = [], onlyInB = [],
           changed =
             [[(''key'', JStr ''orders.orders_user_fk''),
               (''valueA'', JStr ''tenant_id->users.tenant_id''),
               (''valueB'', JStr ''user_id->users.id'')]] \<rparr>,
       enums_diff =
         \<lparr> onlyInA = [], onlyInB = [],
           changed =
             [\<lparr> name = ''status'', valuesA = [''active'', ''inactive''],
                 valuesB = [''active'', ''archived'', ''inactive''] \<rparr>] \<rparr>,
       policies_diff = \<lparr> onlyInA = [], onlyInB = [], changed = [] \<rparr>,
       functions_diff =
         \<lparr> onlyInA = [], onlyInB = [],
           changed =
             [[(''key'', JStr ''f(integer)''),
               (''signatureA'', JStr (function_val (fn_row True))),
               (''signatureB'', JStr (function_val (fn_row False)))]] \<rparr>,
       triggers_diff = \<lparr> onlyInA = [], onlyInB = [], changed = [] \<rparr> \<rparr>"

section \<open>Facts about the containers and the routines\<close>

subsection \<open>Sets\<close>

lemma foldl_set_add_set: "set (foldl set_add acc xs) = set acc \<union> set xs"
  by (induction xs arbitrary: acc) (auto simp: set_add_def)

lemma foldl_set_add_distinct: "distinct acc \<Longrightarrow> distinct (foldl set_add acc xs)"
  by (induction xs arbitrary: acc) (auto simp: set_add_def)

lemma set_new_Set [simp]: "set (new_Set xs) = set xs"
  by (simp add: new_Set_def foldl_set_add_set)

lemma distinct_new_Set [simp]: "distinct (new_Set xs)"
  by (simp add: new_Set_def foldl_set_add_distinct)

lemma new_Set_Nil [simp]: "new_Set [] = []"
  by (simp add: new_Set_def)

subsection \<open>Maps\<close>

lemma foldl_update_keys:
  "fst ` set (foldl (\<lambda>m (k, v). AList.update k v m) m es) = fst ` set m \<union> fst ` set es"
proof (induction es arbitrary: m)
  case Nil
  show ?case by simp
next
  case (Cons e es)
  obtain k v where e: "e = (k, v)" by (cases e)
  have "fst ` set (AList.update k v m) = insert k (fst ` set m)"
    using dom_update [of k v m] by (simp add: dom_map_of_conv_image_fst)
  then show ?case using Cons.IH [of "AList.update k v m"] by (auto simp: e)
qed

lemma foldl_update_distinct:
  "distinct (map fst m) \<Longrightarrow> distinct (map fst (foldl (\<lambda>m (k, v). AList.update k v m) m es))"
proof (induction es arbitrary: m)
  case Nil
  then show ?case by simp
next
  case (Cons e es)
  obtain k v where e: "e = (k, v)" by (cases e)
  show ?case using Cons.IH [of "AList.update k v m"] Cons.prems
    by (simp add: e distinct_update)
qed

lemma foldl_update_map_of:
  "map_of (foldl (\<lambda>m (k, v). AList.update k v m) m es) k =
     (case map_of (rev es) k of Some v \<Rightarrow> Some v | None \<Rightarrow> map_of m k)"
proof (induction es arbitrary: m)
  case Nil
  show ?case by simp
next
  case (Cons e es)
  obtain k' v' where e: "e = (k', v')" by (cases e)
  show ?case using Cons.IH [of "AList.update k' v' m"]
    by (auto simp: e update_conv' map_add_def split: option.splits)
qed

lemma map_keys_new_Map: "set (map_keys (new_Map es)) = fst ` set es"
  using foldl_update_keys [of "[]" es] by (simp add: map_keys_def new_Map_def)

lemma distinct_map_keys_new_Map: "distinct (map_keys (new_Map es))"
  using foldl_update_distinct [of "[]" es] by (simp add: map_keys_def new_Map_def)

lemma map_of_new_Map: "map_of (new_Map es) k = map_of (rev es) k"
  using foldl_update_map_of [of "[]" es k] by (simp add: new_Map_def split: option.splits)

lemma map_has_new_Map: "map_has (new_Map es) k \<longleftrightarrow> k \<in> fst ` set es"
  using map_keys_new_Map [of es]
  by (simp add: map_has_def map_keys_def map_of_eq_None_iff)

text \<open>The value stored under a key is the one of the last entry with that key.\<close>

lemma map_of_rev_last:
  assumes "i < length es" "fst (es ! i) = k"
    and "\<forall>j. i < j \<and> j < length es \<longrightarrow> fst (es ! j) \<noteq> k"
  shows "map_of (rev es) k = Some (snd (es ! i))"
  using assms
proof (induction es arbitrary: i rule: rev_induct)
  case Nil
  then show ?case by simp
next
  case (snoc e es)
  show ?case
  proof (cases "i = length es")
    case True
    with snoc.prems show ?thesis by (cases e) auto
  next
    case False
    with snoc.prems have i: "i < length es" by simp
    from snoc.prems(3) i have "fst e \<noteq> k"
      by (metis length_append_singleton lessI nth_append_length)
    moreover have "map_of (rev es) k = Some (snd (es ! i))"
    proof (rule snoc.IH [OF i])
      show "fst (es ! i) = k" using snoc.prems(2) i by (simp add: nth_append)
      show "\<forall>j. i < j \<and> j < length es \<longrightarrow> fst (es ! j) \<noteq> k"
        using snoc.prems(3) by (metis length_append_singleton less_Suc_eq nth_append)
    qed
    ultimately show ?thesis using i by (cases e) (auto simp: nth_append)
  qed
qed

subsection \<open>Objects\<close>

lemma set_Object_keys [simp]: "set (Object_keys obj) = fst ` set obj"
  by (auto simp: Object_keys_def)

lemma fst_set_update: "fst ` set (AList.update k v m) = insert k (fst ` set m)"
  using dom_update [of k v m] by (simp add: dom_map_of_conv_image_fst)

lemma obj_get_safe:
  "safe_key k \<Longrightarrow> obj_get obj k = (case map_of obj k of Some v \<Rightarrow> Own v | None \<Rightarrow> Missing)"
  by (simp add: obj_get_def safe_key_def split: option.splits)

lemma obj_get_unsafe:
  "\<not> safe_key k \<Longrightarrow> \<forall>k'\<in>fst ` set obj. safe_key k' \<Longrightarrow> obj_get obj k = Inherited"
proof -
  assume u: "\<not> safe_key k" and s: "\<forall>k'\<in>fst ` set obj. safe_key k'"
  then have "k \<notin> fst ` set obj" by blast
  then have "map_of obj k = None" by (simp add: map_of_eq_None_iff)
  with u show ?thesis by (simp add: obj_get_def safe_key_def)
qed

lemma groupBy_loop_Inl:
  "\<forall>k\<in>fst ` set result. safe_key k \<Longrightarrow> \<exists>x\<in>set arr. \<not> safe_key (fn x)
     \<Longrightarrow> groupBy_loop arr fn result = Inl TypeError"
proof (induction arr arbitrary: result)
  case Nil
  then show ?case by simp
next
  case (Cons item arr)
  show ?case
  proof (cases "safe_key (fn item)")
    case False
    then show ?thesis using Cons.prems(1) by (simp add: obj_get_unsafe)
  next
    case True
    with Cons.prems(2) have ex: "\<exists>x\<in>set arr. \<not> safe_key (fn x)" by auto
    have keys: "\<forall>k\<in>fst ` set (obj_set result (fn item) v). safe_key k" for v
      using Cons.prems(1) True by (simp add: obj_set_def fst_set_update)
    show ?thesis
      using Cons.IH [OF keys ex] True
      by (simp add: obj_get_safe split: option.splits)
  qed
qed

lemma filter_key_empty: "k \<notin> fn ` set arr \<Longrightarrow> filter (\<lambda>x. fn x = k) arr = []"
  by (auto simp: filter_empty_conv)

lemma groupBy_loop_Inr:
  "\<forall>x\<in>set arr. safe_key (fn x) \<Longrightarrow>
     \<exists>obj. groupBy_loop arr fn result = Inr obj
       \<and> (distinct (map fst result) \<longrightarrow> distinct (map fst obj))
       \<and> fst ` set obj = fst ` set result \<union> fn ` set arr
       \<and> (\<forall>k. map_of obj k =
             (if k \<in> fn ` set arr
              then Some ((case map_of result k of None \<Rightarrow> [] | Some xs \<Rightarrow> xs)
                         @ filter (\<lambda>x. fn x = k) arr)
              else map_of result k))"
proof (induction arr arbitrary: result)
  case Nil
  show ?case by simp
next
  case (Cons item arr)
  let ?k = "fn item"
  let ?old = "case map_of result ?k of None \<Rightarrow> [] | Some xs \<Rightarrow> xs"
  let ?r = "obj_set result ?k (?old @ [item])"
  from Cons.prems have safe: "safe_key ?k" and rest: "\<forall>x\<in>set arr. safe_key (fn x)" by auto
  have step: "groupBy_loop (item # arr) fn result = groupBy_loop arr fn ?r"
    using safe by (simp add: obj_get_safe split: option.splits)
  from Cons.IH [OF rest, of ?r] obtain obj where
    run: "groupBy_loop arr fn ?r = Inr obj"
    and dist: "distinct (map fst ?r) \<longrightarrow> distinct (map fst obj)"
    and keys: "fst ` set obj = fst ` set ?r \<union> fn ` set arr"
    and vals: "\<And>k. map_of obj k =
             (if k \<in> fn ` set arr
              then Some ((case map_of ?r k of None \<Rightarrow> [] | Some xs \<Rightarrow> xs)
                         @ filter (\<lambda>x. fn x = k) arr)
              else map_of ?r k)"
    by blast
  have mo: "map_of ?r = (map_of result)(?k \<mapsto> ?old @ [item])"
    by (simp add: obj_set_def update_conv')
  have "distinct (map fst result) \<longrightarrow> distinct (map fst obj)"
    using dist by (simp add: obj_set_def distinct_update)
  moreover have "fst ` set obj = fst ` set result \<union> fn ` set (item # arr)"
    using keys by (auto simp: obj_set_def fst_set_update)
  moreover have "map_of obj k =
             (if k \<in> fn ` set (item # arr)
              then Some ((case map_of result k of None \<Rightarrow> [] | Some xs \<Rightarrow> xs)
                         @ filter (\<lambda>x. fn x = k) (item # arr))
              else map_of result k)" for k
    unfolding vals [of k] mo by (auto simp: filter_key_empty split: option.splits)
  ultimately show ?case using step run by simp
qed

lemma groupBy_Inr_iff: "(\<exists>obj. groupBy arr fn = Inr obj) \<longleftrightarrow> (\<forall>x\<in>set arr. safe_key (fn x))"
proof
  assume ex: "\<exists>obj. groupBy arr fn = Inr obj"
  show "\<forall>x\<in>set arr. safe_key (fn x)"
  proof (rule ccontr)
    assume "\<not> (\<forall>x\<in>set arr. safe_key (fn x))"
    then have "groupBy_loop arr fn [] = Inl TypeError"
      by (intro groupBy_loop_Inl) auto
    with ex show False by (simp add: groupBy_def)
  qed
next
  assume "\<forall>x\<in>set arr. safe_key (fn x)"
  then show "\<exists>obj. groupBy arr fn = Inr obj"
    using groupBy_loop_Inr [of arr fn "[]"] by (auto simp: groupBy_def)
qed

lemma groupBy_Inr:
  assumes "groupBy arr fn = Inr obj"
  shows "distinct (map fst obj)"
    and "fst ` set obj = fn ` set arr"
    and "\<forall>x\<in>set arr. safe_key (fn x)"
    and "map_of obj k = (if k \<in> fn ` set arr then Some (filter (\<lambda>x. fn x = k) arr) else None)"
proof -
  show safe: "\<forall>x\<in>set arr. safe_key (fn x)"
    using assms groupBy_Inr_iff [of arr fn] by blast
  from groupBy_loop_Inr [OF safe, of "[]"] assms
  show "distinct (map fst obj)" and "fst ` set obj = fn ` set arr"
    and "map_of obj k = (if k \<in> fn ` set arr then Some (filter (\<lambda>x. fn x = k) arr) else None)"
    by (auto simp: groupBy_def)
qed

text \<open>\<^verbatim>\<open>buildMap\<close> is \<^verbatim>\<open>groupBy\<close> on the type name, keeping the member values only.\<close>


lemma values_only_update:
  "AList.update k (map enum_value xs) (values_only r) = values_only (AList.update k xs r)"
  by (induction r) (auto simp: values_only_def)

lemma map_of_values_only: "map_of (values_only r) k = map_option (map enum_value) (map_of r k)"
  by (induction r) (auto simp: values_only_def)

lemma buildMap_loop_groupBy:
  "buildMap_loop es (values_only r) =
     (case groupBy_loop es enum_name r of Inl e \<Rightarrow> Inl e | Inr obj \<Rightarrow> Inr (values_only obj))"
proof (induction es arbitrary: r)
  case Nil
  show ?case by simp
next
  case (Cons e es)
  have upd: "obj_set (values_only r) k (map enum_value xs) = values_only (obj_set r k xs)" for k xs
    by (simp add: obj_set_def values_only_update)
  show ?case
  proof (cases "map_of r (enum_name e)")
    case None
    then have "obj_set (values_only r) (enum_name e) [enum_value e]
        = values_only (obj_set r (enum_name e) [e])"
      using upd [of "enum_name e" "[e]"] by simp
    with None show ?thesis
      using Cons.IH [of "obj_set r (enum_name e) [e]"]
      by (simp add: obj_get_def map_of_values_only)
  next
    case (Some xs)
    then have "obj_set (values_only r) (enum_name e) (map enum_value xs @ [enum_value e])
        = values_only (obj_set r (enum_name e) (xs @ [e]))"
      using upd [of "enum_name e" "xs @ [e]"] by simp
    with Some show ?thesis
      using Cons.IH [of "obj_set r (enum_name e) (xs @ [e])"]
      by (simp add: obj_get_def map_of_values_only)
  qed
qed

lemma buildMap_groupBy:
  "buildMap es = (case groupBy es enum_name of Inl e \<Rightarrow> Inl e | Inr obj \<Rightarrow> Inr (values_only obj))"
  using buildMap_loop_groupBy [of es "[]"] by (simp add: buildMap_def groupBy_def values_only_def)

lemma buildMap_Inr_iff: "(\<exists>m. buildMap es = Inr m) \<longleftrightarrow> (\<forall>e\<in>set es. safe_key (enum_name e))"
  using groupBy_Inr_iff [of es enum_name]
  by (auto simp: buildMap_groupBy split: sum.splits)

lemma buildMap_Inr:
  assumes "buildMap es = Inr m"
  shows "distinct (map fst m)"
    and "fst ` set m = enum_name ` set es"
    and "\<forall>e\<in>set es. safe_key (enum_name e)"
    and "map_of m k = (if k \<in> enum_name ` set es then Some (values_of k es) else None)"
proof -
  from assms obtain obj where g: "groupBy es enum_name = Inr obj" and m: "m = values_only obj"
    by (auto simp: buildMap_groupBy split: sum.splits)
  have fst_vo: "map fst (values_only obj) = map fst obj"
    by (induction obj) (auto simp: values_only_def)
  show "distinct (map fst m)" using groupBy_Inr(1) [OF g] by (simp add: m fst_vo)
  show "fst ` set m = enum_name ` set es"
    using groupBy_Inr(2) [OF g] fst_vo by (metis m set_map)
  show "\<forall>e\<in>set es. safe_key (enum_name e)" using groupBy_Inr(3) [OF g] .
  show "map_of m k = (if k \<in> enum_name ` set es then Some (values_of k es) else None)"
    using groupBy_Inr(4) [OF g, of k] by (simp add: m map_of_values_only values_of_def)
qed

lemma find_column_Some:
  "n \<in> column_name ` set cs \<Longrightarrow> \<exists>r. find (\<lambda>c. column_name c = n) cs = Some r"
  by (cases "find (\<lambda>c. column_name c = n) cs") (auto simp: find_None_iff)

lemma changed_columns_pure:
  "set ns \<subseteq> column_name ` set colsA \<Longrightarrow> set nb = column_name ` set colsB \<Longrightarrow>
   changed_columns ns nb colsA colsB =
     Inr (map (\<lambda>n. \<lparr> column = n, differences = column_delta colsA colsB n \<rparr>)
           (filter (\<lambda>n. n \<in> column_name ` set colsB \<and> column_delta colsA colsB n \<noteq> []) ns))"
proof (induction ns)
  case Nil
  show ?case by simp
next
  case (Cons n ns)
  then have IH: "changed_columns ns nb colsA colsB =
     Inr (map (\<lambda>n. \<lparr> column = n, differences = column_delta colsA colsB n \<rparr>)
           (filter (\<lambda>n. n \<in> column_name ` set colsB \<and> column_delta colsA colsB n \<noteq> []) ns))"
    by simp
  show ?case
  proof (cases "n \<in> column_name ` set colsB")
    case False
    then show ?thesis using IH Cons.prems(2) by (simp add: set_has_def)
  next
    case True
    from Cons.prems(1) have "n \<in> column_name ` set colsA" by simp
    then obtain ra where ra: "find (\<lambda>c. column_name c = n) colsA = Some ra"
      using find_column_Some by blast
    from True obtain rb where rb: "find (\<lambda>c. column_name c = n) colsB = Some rb"
      using find_column_Some by blast
    have cd: "column_delta colsA colsB n = compare_fields column_fields ra rb"
      by (simp add: column_delta_def ra rb)
    show ?thesis
      using True IH Cons.prems(2)
      by (simp add: set_has_def ra rb compareColumnDetails_def cd)
  qed
qed

lemma table_delta_pure: "table_delta colsA colsB = Inr (table_changes colsA colsB)"
proof -
  have "changed_columns (new_Set (map column_name colsA)) (new_Set (map column_name colsB))
          colsA colsB =
     Inr (map (\<lambda>n. \<lparr> column = n, differences = column_delta colsA colsB n \<rparr>)
           (filter (\<lambda>n. n \<in> column_name ` set colsB \<and> column_delta colsA colsB n \<noteq> [])
              (new_Set (map column_name colsA))))"
    by (rule changed_columns_pure) simp_all
  then show ?thesis
    by (simp add: table_delta_def table_changes_def set_has_def Let_def)
qed

lemma table_changes_Nil: "no_changes (table_changes [] [])"
  by (simp add: table_changes_def no_changes_def)

lemma cols_or_empty_grouped:
  assumes "\<And>k. map_of m k = (if k \<in> col_table_name ` set cs then Some (rows_of k cs) else None)"
    and "safe_key t"
  shows "cols_or_empty m t = Inr (rows_of t cs)"
proof (cases "t \<in> col_table_name ` set cs")
  case True
  then show ?thesis using assms by (simp add: cols_or_empty_def obj_get_safe)
next
  case False
  then have "rows_of t cs = []" by (auto simp: rows_of_def filter_empty_conv)
  with False show ?thesis using assms by (simp add: cols_or_empty_def obj_get_safe)
qed

lemma diffColumns_loop_pure:
  assumes mA: "\<And>k. map_of mapA k = (if k \<in> col_table_name ` set csA then Some (rows_of k csA) else None)"
    and mB: "\<And>k. map_of mapB k = (if k \<in> col_table_name ` set csB then Some (rows_of k csB) else None)"
  shows "\<forall>t\<in>set ts. safe_key t \<Longrightarrow>
     \<exists>res. diffColumns_loop ts mapA mapB result = Inr res
       \<and> (distinct (map fst result) \<longrightarrow> distinct (map fst res))
       \<and> (\<forall>t. map_of res t =
             (if t \<in> set ts \<and> \<not> no_changes (table_changes (rows_of t csA) (rows_of t csB))
              then Some (table_changes (rows_of t csA) (rows_of t csB))
              else map_of result t))"
proof (induction ts arbitrary: result)
  case Nil
  show ?case by simp
next
  case (Cons t ts)
  let ?d = "table_changes (rows_of t csA) (rows_of t csB)"
  let ?r = "if \<not> no_changes ?d then obj_set result t ?d else result"
  from Cons.prems have safe: "safe_key t" and rest: "\<forall>t\<in>set ts. safe_key t" by auto
  have step: "diffColumns_loop (t # ts) mapA mapB result = diffColumns_loop ts mapA mapB ?r"
    using cols_or_empty_grouped [of mapA csA t, OF mA safe]
      cols_or_empty_grouped [of mapB csB t, OF mB safe]
    by (simp add: table_delta_pure no_changes_def)
  from Cons.IH [OF rest, of ?r] obtain res where
    run: "diffColumns_loop ts mapA mapB ?r = Inr res"
    and dist: "distinct (map fst ?r) \<longrightarrow> distinct (map fst res)"
    and vals: "\<And>x. map_of res x =
             (if x \<in> set ts \<and> \<not> no_changes (table_changes (rows_of x csA) (rows_of x csB))
              then Some (table_changes (rows_of x csA) (rows_of x csB))
              else map_of ?r x)"
    by blast
  have "distinct (map fst result) \<longrightarrow> distinct (map fst res)"
    using dist by (simp add: obj_set_def distinct_update)
  moreover have "map_of res x =
             (if x \<in> set (t # ts) \<and> \<not> no_changes (table_changes (rows_of x csA) (rows_of x csB))
              then Some (table_changes (rows_of x csA) (rows_of x csB))
              else map_of result x)" for x
    unfolding vals [of x] by (auto simp: obj_set_def update_conv')
  ultimately show ?case using step run by simp
qed

lemma diffColumns_Inr_iff:
  "(\<exists>res. diffColumns a b = Inr res) \<longleftrightarrow>
     (\<forall>c\<in>set (columns a) \<union> set (columns b). safe_key (col_table_name c))"
proof
  assume "\<exists>res. diffColumns a b = Inr res"
  then obtain mapA mapB where "groupBy (columns a) col_table_name = Inr mapA"
    "groupBy (columns b) col_table_name = Inr mapB"
    by (auto simp: diffColumns_def split: sum.splits)
  then show "\<forall>c\<in>set (columns a) \<union> set (columns b). safe_key (col_table_name c)"
    using groupBy_Inr(3) by blast
next
  assume safe: "\<forall>c\<in>set (columns a) \<union> set (columns b). safe_key (col_table_name c)"
  then obtain mapA mapB where gA: "groupBy (columns a) col_table_name = Inr mapA"
    and gB: "groupBy (columns b) col_table_name = Inr mapB"
    using groupBy_Inr_iff [of "columns a" col_table_name]
      groupBy_Inr_iff [of "columns b" col_table_name] by auto
  have keys: "\<forall>t\<in>set (new_Set (Object_keys mapA @ Object_keys mapB)). safe_key t"
    using groupBy_Inr(2) [OF gA] groupBy_Inr(2) [OF gB] safe by auto
  have mA: "\<And>k. map_of mapA k =
      (if k \<in> col_table_name ` set (columns a) then Some (rows_of k (columns a)) else None)"
    using groupBy_Inr(4) [OF gA] by (simp add: rows_of_def)
  have mB: "\<And>k. map_of mapB k =
      (if k \<in> col_table_name ` set (columns b) then Some (rows_of k (columns b)) else None)"
    using groupBy_Inr(4) [OF gB] by (simp add: rows_of_def)
  have "\<exists>res. diffColumns_loop (new_Set (Object_keys mapA @ Object_keys mapB)) mapA mapB [] = Inr res"
    using diffColumns_loop_pure [of mapA "columns a" mapB "columns b", OF mA mB keys, of "[]"]
    by blast
  then show "\<exists>res. diffColumns a b = Inr res" by (simp add: diffColumns_def gA gB)
qed

lemma diffColumns_Inr:
  assumes "diffColumns a b = Inr res"
  shows "distinct (map fst res)"
    and "map_of res t =
          (if no_changes (table_changes (rows_of t (columns a)) (rows_of t (columns b)))
           then None
           else Some (table_changes (rows_of t (columns a)) (rows_of t (columns b))))"
proof -
  from assms obtain mapA mapB where gA: "groupBy (columns a) col_table_name = Inr mapA"
    and gB: "groupBy (columns b) col_table_name = Inr mapB"
    by (auto simp: diffColumns_def split: sum.splits)
  let ?ts = "new_Set (Object_keys mapA @ Object_keys mapB)"
  have run: "diffColumns_loop ?ts mapA mapB [] = Inr res"
    using assms by (simp add: diffColumns_def gA gB)
  have set_ts: "set ?ts = col_table_name ` set (columns a) \<union> col_table_name ` set (columns b)"
    using groupBy_Inr(2) [OF gA] groupBy_Inr(2) [OF gB] by simp
  have keys: "\<forall>t\<in>set ?ts. safe_key t"
    using set_ts groupBy_Inr(3) [OF gA] groupBy_Inr(3) [OF gB] by auto
  have mA: "\<And>k. map_of mapA k =
      (if k \<in> col_table_name ` set (columns a) then Some (rows_of k (columns a)) else None)"
    using groupBy_Inr(4) [OF gA] by (simp add: rows_of_def)
  have mB: "\<And>k. map_of mapB k =
      (if k \<in> col_table_name ` set (columns b) then Some (rows_of k (columns b)) else None)"
    using groupBy_Inr(4) [OF gB] by (simp add: rows_of_def)
  from diffColumns_loop_pure [of mapA "columns a" mapB "columns b", OF mA mB keys, of "[]"] run
  have dist: "distinct (map fst res)"
    and vals: "\<And>t. map_of res t =
             (if t \<in> set ?ts \<and> \<not> no_changes (table_changes (rows_of t (columns a)) (rows_of t (columns b)))
              then Some (table_changes (rows_of t (columns a)) (rows_of t (columns b)))
              else None)"
    by auto
  show "distinct (map fst res)" by (rule dist)
  show "map_of res t =
          (if no_changes (table_changes (rows_of t (columns a)) (rows_of t (columns b)))
           then None
           else Some (table_changes (rows_of t (columns a)) (rows_of t (columns b))))"
  proof (cases "t \<in> set ?ts")
    case True
    then show ?thesis by (simp add: vals)
  next
    case False
    then have "rows_of t (columns a) = []" "rows_of t (columns b) = []"
      unfolding set_ts by (auto simp: rows_of_def filter_empty_conv)
    then show ?thesis using False table_changes_Nil by (simp add: vals)
  qed
qed

subsection \<open>\<^verbatim>\<open>JSON.stringify\<close> is injective on arrays of strings\<close>

lemma hex_digit_inj: "a < 16 \<Longrightarrow> b < 16 \<Longrightarrow> hex_digit a = hex_digit b \<Longrightarrow> a = b"
  unfolding hex_digit_def
  using nth_eq_iff_index_eq [of "''0123456789abcdef''" a b] by simp

lemma of_char_nat_inj: "(of_char c :: nat) = of_char d \<Longrightarrow> c = d"
  by (rule of_char_eqI)

lemma hex_pair_inj:
  assumes "(of_char c :: nat) < 32" "(of_char d :: nat) < 32"
    and "hex_digit (of_char c div 16) = hex_digit (of_char d div 16)"
    and "hex_digit (of_char c mod 16) = hex_digit (of_char d mod 16)"
  shows "c = d"
proof -
  let ?n = "of_char c :: nat" and ?m = "of_char d :: nat"
  have "?n div 16 = ?m div 16"
    using assms(1,2,3) by (intro hex_digit_inj) auto
  moreover have "?n mod 16 = ?m mod 16"
    using assms(4) by (intro hex_digit_inj) auto
  ultimately have "?n = ?m" by (metis div_mult_mod_eq)
  then show ?thesis by (rule of_char_nat_inj)
qed

lemma json_escape_hd: "json_escape c = x # xs \<Longrightarrow> x \<noteq> CHR 0x22"
  by (auto simp: json_escape_def split: if_splits)

lemma json_escape_not_Nil: "json_escape c \<noteq> []"
  by (simp add: json_escape_def)

lemma json_escape_prefix_free:
  "json_escape c @ X = json_escape d @ Y \<Longrightarrow> c = d \<and> X = Y"
  unfolding json_escape_def
  by (auto split: if_splits dest: hex_pair_inj)

lemma json_body_inj:
  "concat (map json_escape s) @ CHR 0x22 # r = concat (map json_escape t) @ CHR 0x22 # r'
     \<Longrightarrow> s = t \<and> r = r'"
proof (induction s arbitrary: t)
  case Nil
  show ?case
  proof (cases t)
    case Nil
    with Nil.prems show ?thesis by simp
  next
    case (Cons d t')
    obtain x xs where e: "json_escape d = x # xs"
      using json_escape_not_Nil [of d] by (cases "json_escape d") auto
    with Nil.prems Cons have "x = CHR 0x22" by simp
    with json_escape_hd [OF e] show ?thesis by simp
  qed
next
  case (Cons c s')
  show ?case
  proof (cases t)
    case Nil
    obtain x xs where e: "json_escape c = x # xs"
      using json_escape_not_Nil [of c] by (cases "json_escape c") auto
    with Cons.prems Nil have "x = CHR 0x22" by simp
    with json_escape_hd [OF e] show ?thesis by simp
  next
    case (Cons d t')
    with Cons.prems have
      "json_escape c @ (concat (map json_escape s') @ CHR 0x22 # r)
         = json_escape d @ (concat (map json_escape t') @ CHR 0x22 # r')"
      by simp
    from json_escape_prefix_free [OF this] have cd: "c = d"
      and rest: "concat (map json_escape s') @ CHR 0x22 # r
                  = concat (map json_escape t') @ CHR 0x22 # r'"
      by auto
    from Cons.IH [OF rest] cd Cons show ?thesis by simp
  qed
qed

lemma json_quote_inj: "json_quote s @ r = json_quote t @ r' \<Longrightarrow> s = t \<and> r = r'"
  using json_body_inj [of s r t r'] by (simp add: json_quote_def)

lemma join_Cons: "join sep (x # xs) = x @ concat (map (\<lambda>y. sep @ y) xs)"
  by (induction xs arbitrary: x) auto

lemma json_tail_inj:
  "concat (map (\<lambda>y. '','' @ json_quote y) xs) @ '']'' @ r
     = concat (map (\<lambda>y. '','' @ json_quote y) ys) @ '']'' @ r'
   \<Longrightarrow> xs = ys \<and> r = r'"
proof (induction xs arbitrary: ys)
  case Nil
  then show ?case by (cases ys) auto
next
  case (Cons x xs)
  show ?case
  proof (cases ys)
    case Nil
    with Cons.prems show ?thesis by simp
  next
    case (Cons y ys')
    with Cons.prems have
      "json_quote x @ (concat (map (\<lambda>y. '','' @ json_quote y) xs) @ '']'' @ r)
        = json_quote y @ (concat (map (\<lambda>y. '','' @ json_quote y) ys') @ '']'' @ r')"
      by simp
    from json_quote_inj [OF this] Cons.IH [of ys'] Cons show ?thesis by blast
  qed
qed

lemma json_string_array_inj: "json_string_array xs = json_string_array ys \<Longrightarrow> xs = ys"
proof (cases xs)
  case Nil
  assume "json_string_array xs = json_string_array ys"
  with Nil show ?thesis
    by (cases ys) (auto simp: json_string_array_def join_Cons json_quote_def)
next
  case (Cons x xs')
  assume eq: "json_string_array xs = json_string_array ys"
  show ?thesis
  proof (cases ys)
    case Nil
    with eq Cons show ?thesis
      by (auto simp: json_string_array_def join_Cons json_quote_def)
  next
    case ys: (Cons y ys')
    from eq Cons ys have
      "json_quote x @ (concat (map (\<lambda>y. '','' @ json_quote y) xs') @ '']'' @ [])
        = json_quote y @ (concat (map (\<lambda>y. '','' @ json_quote y) ys') @ '']'' @ [])"
      by (simp add: json_string_array_def join_Cons comp_def)
    from json_quote_inj [OF this] json_tail_inj [of xs' "[]" ys' "[]"] Cons ys
    show ?thesis by blast
  qed
qed

lemma json_string_array_eq_iff [simp]:
  "json_string_array xs = json_string_array ys \<longleftrightarrow> xs = ys"
  using json_string_array_inj by blast

subsection \<open>Enums\<close>

lemma sort_eq_iff_mset: "sort xs = sort ys \<longleftrightarrow> mset xs = mset ys"
proof
  assume "sort xs = sort ys"
  then have "mset (sort xs) = mset (sort ys)" by simp
  then show "mset xs = mset ys" by simp
next
  assume "mset xs = mset ys"
  then have "mset (sort ys) = mset xs" by simp
  then show "sort xs = sort ys" by (rule properties_for_sort) simp
qed

lemma sorted_values_built:
  assumes "\<And>k. map_of m k = (if k \<in> enum_name ` set es then Some (values_of k es) else None)"
    and "n \<in> enum_name ` set es"
  shows "sorted_values m n = Inr (sort (values_of n es))"
  using assms by (simp add: sorted_values_def obj_get_def)

lemma changed_enums_pure:
  assumes mA: "\<And>k. map_of mapA k = (if k \<in> enum_name ` set esA then Some (values_of k esA) else None)"
    and mB: "\<And>k. map_of mapB k = (if k \<in> enum_name ` set esB then Some (values_of k esB) else None)"
    and nb: "set nb = enum_name ` set esB"
  shows "set ns \<subseteq> enum_name ` set esA \<Longrightarrow>
    changed_enums ns nb mapA mapB = Inr (enum_changes esA esB ns)"
proof (induction ns)
  case Nil
  show ?case by (simp add: enum_changes_def)
next
  case (Cons n ns)
  then have IH: "changed_enums ns nb mapA mapB = Inr (enum_changes esA esB ns)" by simp
  show ?case
  proof (cases "n \<in> enum_name ` set esB")
    case False
    then show ?thesis using IH nb by (simp add: set_has_def enum_changes_def)
  next
    case True
    from Cons.prems have inA: "n \<in> enum_name ` set esA" by simp
    show ?thesis
      using True IH nb sorted_values_built [of mapA esA n, OF mA inA]
        sorted_values_built [of mapB esB n, OF mB True]
      by (simp add: set_has_def enum_changes_def)
  qed
qed

lemma diffEnums_Inr_iff:
  "(\<exists>r. diffEnums a b = Inr r) \<longleftrightarrow>
     (\<forall>e\<in>set (enums a) \<union> set (enums b). safe_key (enum_name e))"
proof
  assume "\<exists>r. diffEnums a b = Inr r"
  then obtain mapA mapB where "buildMap (enums a) = Inr mapA" "buildMap (enums b) = Inr mapB"
    by (auto simp: diffEnums_def split: sum.splits)
  then show "\<forall>e\<in>set (enums a) \<union> set (enums b). safe_key (enum_name e)"
    using buildMap_Inr(3) by blast
next
  assume safe: "\<forall>e\<in>set (enums a) \<union> set (enums b). safe_key (enum_name e)"
  then obtain mapA mapB where bA: "buildMap (enums a) = Inr mapA"
    and bB: "buildMap (enums b) = Inr mapB"
    using buildMap_Inr_iff [of "enums a"] buildMap_Inr_iff [of "enums b"] by auto
  have "changed_enums (new_Set (Object_keys mapA)) (new_Set (Object_keys mapB)) mapA mapB
      = Inr (enum_changes (enums a) (enums b) (new_Set (Object_keys mapA)))"
  proof (rule changed_enums_pure)
    show "\<And>k. map_of mapA k =
        (if k \<in> enum_name ` set (enums a) then Some (values_of k (enums a)) else None)"
      using buildMap_Inr(4) [OF bA] by simp
    show "\<And>k. map_of mapB k =
        (if k \<in> enum_name ` set (enums b) then Some (values_of k (enums b)) else None)"
      using buildMap_Inr(4) [OF bB] by simp
    show "set (new_Set (Object_keys mapB)) = enum_name ` set (enums b)"
      using buildMap_Inr(2) [OF bB] by simp
    show "set (new_Set (Object_keys mapA)) \<subseteq> enum_name ` set (enums a)"
      using buildMap_Inr(2) [OF bA] by simp
  qed
  then show "\<exists>r. diffEnums a b = Inr r" by (simp add: diffEnums_def bA bB Let_def)
qed

text \<open>What \<^verbatim>\<open>diffEnums\<close> returns: the changed entries follow the type names of A in
  the order \<^verbatim>\<open>Object.keys\<close> lists them, each name once.\<close>

lemma diffEnums_Inr:
  assumes "diffEnums a b = Inr r"
  shows "\<exists>ns. distinct ns \<and> set ns = enum_name ` set (enums a)
          \<and> changed r = enum_changes (enums a) (enums b) ns"
    and "sorted (onlyInA r) \<and> distinct (onlyInA r)
          \<and> set (onlyInA r) = enum_name ` set (enums a) - enum_name ` set (enums b)"
    and "sorted (onlyInB r) \<and> distinct (onlyInB r)
          \<and> set (onlyInB r) = enum_name ` set (enums b) - enum_name ` set (enums a)"
proof -
  from assms obtain mapA mapB where bA: "buildMap (enums a) = Inr mapA"
    and bB: "buildMap (enums b) = Inr mapB"
    by (auto simp: diffEnums_def split: sum.splits)
  let ?nsA = "new_Set (Object_keys mapA)" and ?nsB = "new_Set (Object_keys mapB)"
  have setA: "set ?nsA = enum_name ` set (enums a)" using buildMap_Inr(2) [OF bA] by simp
  have setB: "set ?nsB = enum_name ` set (enums b)" using buildMap_Inr(2) [OF bB] by simp
  have ch: "changed_enums ?nsA ?nsB mapA mapB = Inr (enum_changes (enums a) (enums b) ?nsA)"
  proof (rule changed_enums_pure)
    show "\<And>k. map_of mapA k =
        (if k \<in> enum_name ` set (enums a) then Some (values_of k (enums a)) else None)"
      using buildMap_Inr(4) [OF bA] by simp
    show "\<And>k. map_of mapB k =
        (if k \<in> enum_name ` set (enums b) then Some (values_of k (enums b)) else None)"
      using buildMap_Inr(4) [OF bB] by simp
    show "set ?nsB = enum_name ` set (enums b)" by (rule setB)
    show "set ?nsA \<subseteq> enum_name ` set (enums a)" using setA by simp
  qed
  from assms have r: "r = \<lparr> onlyInA = sort (filter (\<lambda>n. \<not> set_has ?nsB n) ?nsA),
                             onlyInB = sort (filter (\<lambda>n. \<not> set_has ?nsA n) ?nsB),
                             changed = enum_changes (enums a) (enums b) ?nsA \<rparr>"
    by (simp add: diffEnums_def bA bB ch Let_def)
  show "\<exists>ns. distinct ns \<and> set ns = enum_name ` set (enums a)
          \<and> changed r = enum_changes (enums a) (enums b) ns"
    using setA by (intro exI [of _ ?nsA]) (simp add: r)
  show "sorted (onlyInA r) \<and> distinct (onlyInA r)
          \<and> set (onlyInA r) = enum_name ` set (enums a) - enum_name ` set (enums b)"
    using setA setB by (auto simp: r set_has_def)
  show "sorted (onlyInB r) \<and> distinct (onlyInB r)
          \<and> set (onlyInB r) = enum_name ` set (enums b) - enum_name ` set (enums a)"
    using setA setB by (auto simp: r set_has_def)
qed

lemma filter_eq_distinct:
  "distinct ns \<Longrightarrow> filter (\<lambda>x. x = n) ns = (if n \<in> set ns then [n] else [])"
  by (induction ns) auto

lemma filter_map_pred_distinct:
  assumes "distinct ns" and "\<And>x. Q (mk x) \<longleftrightarrow> x = n"
  shows "filter Q (map mk (filter P ns)) = (if n \<in> set ns \<and> P n then [mk n] else [])"
proof -
  have "filter Q (map mk (filter P ns)) = map mk (filter (\<lambda>x. x = n) (filter P ns))"
    by (simp add: filter_map comp_def assms(2))
  also have "\<dots> = (if n \<in> set (filter P ns) then [mk n] else [])"
    using filter_eq_distinct [of "filter P ns" n] assms(1) by simp
  finally show ?thesis by simp
qed

subsection \<open>Tables and the keyed categories\<close>

lemma diffTables_props:
  "sorted (onlyInA (diffTables a b)) \<and> distinct (onlyInA (diffTables a b))
   \<and> set (onlyInA (diffTables a b)) = table_name ` set (tables a) - table_name ` set (tables b)"
  "sorted (onlyInB (diffTables a b)) \<and> distinct (onlyInB (diffTables a b))
   \<and> set (onlyInB (diffTables a b)) = table_name ` set (tables b) - table_name ` set (tables a)"
  "sorted (common (diffTables a b)) \<and> distinct (common (diffTables a b))
   \<and> set (common (diffTables a b)) = table_name ` set (tables a) \<inter> table_name ` set (tables b)"
  by (auto simp: diffTables_def Let_def set_has_def)

lemma keyed_section_onlyInA:
  "sorted (onlyInA (keyed_section pA pB (new_Map esA) (new_Map esB)))
   \<and> distinct (onlyInA (keyed_section pA pB (new_Map esA) (new_Map esB)))
   \<and> set (onlyInA (keyed_section pA pB (new_Map esA) (new_Map esB))) = fst ` set esA - fst ` set esB"
  using distinct_map_keys_new_Map [of esA] map_keys_new_Map [of esA]
  by (auto simp: keyed_section_def map_has_new_Map)

lemma keyed_section_onlyInB:
  "sorted (onlyInB (keyed_section pA pB (new_Map esA) (new_Map esB)))
   \<and> distinct (onlyInB (keyed_section pA pB (new_Map esA) (new_Map esB)))
   \<and> set (onlyInB (keyed_section pA pB (new_Map esA) (new_Map esB))) = fst ` set esB - fst ` set esA"
  using distinct_map_keys_new_Map [of esB] map_keys_new_Map [of esB]
  by (auto simp: keyed_section_def map_has_new_Map)

lemma diffSchemas_Inr:
  assumes "diffSchemas a b la lb = Inr d"
  shows "diffColumns a b = Inr (columns_diff d)"
    and "diffEnums a b = Inr (enums_diff d)"
    and "tables_diff d = diffTables a b"
    and "indexes_diff d = diffIndexes a b"
    and "foreignKeys_diff d = diffForeignKeys a b"
    and "policies_diff d = diffPolicies a b"
    and "functions_diff d = diffFunctions a b"
    and "triggers_diff d = diffTriggers a b"
    and "labelA d = la" and "labelB d = lb"
  using assms by (auto simp: diffSchemas_def split: sum.splits)

lemma diffSchemas_Inr_iff:
  "(\<exists>d. diffSchemas a b la lb = Inr d) \<longleftrightarrow>
     (\<forall>c\<in>set (columns a) \<union> set (columns b). safe_key (col_table_name c))
     \<and> (\<forall>e\<in>set (enums a) \<union> set (enums b). safe_key (enum_name e))"
  using diffColumns_Inr_iff [of a b] diffEnums_Inr_iff [of a b]
  by (auto simp: diffSchemas_def split: sum.splits)

subsection \<open>The column diff, table by table\<close>

lemma find_rows_of:
  "find (\<lambda>c. column_name c = n) (rows_of t cs)
     = find (\<lambda>c. col_table_name c = t \<and> column_name c = n) cs"
  by (induction cs) (auto simp: rows_of_def)

lemma names_rows_of: "n \<in> column_name ` set (rows_of t (columns s)) \<longleftrightarrow> has_column s t n"
  by (auto simp: rows_of_def has_column_def)

lemma first_column_None: "first_column s t n = None \<longleftrightarrow> \<not> has_column s t n"
  by (auto simp: first_column_def has_column_def find_None_iff)

lemma first_column_Some: "first_column s t n = Some c \<Longrightarrow> has_column s t n"
  using first_column_None [of s t n] by auto

lemma column_delta_first:
  "column_delta (rows_of t (columns a)) (rows_of t (columns b)) n =
     (case first_column a t n of
        None \<Rightarrow> []
      | Some ra \<Rightarrow> (case first_column b t n of
                      None \<Rightarrow> []
                    | Some rb \<Rightarrow> compare_fields column_fields ra rb))"
  by (auto simp: column_delta_def find_rows_of first_column_def split: option.splits)

lemma no_changes_eq: "no_changes (e :: 'c category_diff) \<longleftrightarrow> e = \<lparr> onlyInA = [], onlyInB = [], changed = [] \<rparr>"
  by (cases e) (auto simp: no_changes_def)

lemma columns_entry_eq:
  assumes "diffSchemas a b la lb = Inr d"
  shows "columns_entry d t = table_changes (rows_of t (columns a)) (rows_of t (columns b))"
  using diffColumns_Inr(2) [OF diffSchemas_Inr(1) [OF assms], of t]
  by (auto simp: columns_entry_def no_changes_eq)

lemma changed_for_column:
  "filter (\<lambda>ch. column ch = n) (changed (table_changes colsA colsB)) =
     (if n \<in> column_name ` set colsA \<and> n \<in> column_name ` set colsB
         \<and> column_delta colsA colsB n \<noteq> []
      then [\<lparr> column = n, differences = column_delta colsA colsB n \<rparr>] else [])"
proof -
  have "filter (\<lambda>ch. column ch = n)
          (map (\<lambda>n. \<lparr> column = n, differences = column_delta colsA colsB n \<rparr>)
            (filter (\<lambda>n. n \<in> column_name ` set colsB \<and> column_delta colsA colsB n \<noteq> [])
               (new_Set (map column_name colsA))))
      = (if n \<in> set (new_Set (map column_name colsA))
            \<and> (n \<in> column_name ` set colsB \<and> column_delta colsA colsB n \<noteq> [])
         then [\<lparr> column = n, differences = column_delta colsA colsB n \<rparr>] else [])"
    by (rule filter_map_pred_distinct) simp_all
  then show ?thesis by (simp add: table_changes_def)
qed

lemma table_changes_distinct:
  "distinct (onlyInA (table_changes colsA colsB) @ onlyInB (table_changes colsA colsB)
             @ map column (changed (table_changes colsA colsB)))"
  by (auto simp: table_changes_def comp_def)

lemma table_changes_nonempty:
  "\<not> no_changes (table_changes colsA colsB) \<longleftrightarrow>
     (\<exists>n. n \<in> column_name ` set colsA \<and> n \<notin> column_name ` set colsB)
     \<or> (\<exists>n. n \<in> column_name ` set colsB \<and> n \<notin> column_name ` set colsA)
     \<or> (\<exists>n. n \<in> column_name ` set colsA \<and> n \<in> column_name ` set colsB
             \<and> column_delta colsA colsB n \<noteq> [])"
  by (auto simp: no_changes_def table_changes_def filter_empty_conv)


subsection \<open>Trimming\<close>





section \<open>The engine on the example snapshots\<close>

lemma staging_vs_production_eq:
  "diffSchemas staging production ''staging'' ''production'' = Inr staging_vs_production"
  by code_simp

section \<open>The claims\<close>

subsection \<open>Returning without throwing\<close>

lemma new_Map_Nil [simp]: "new_Map [] = []"
  by (simp add: new_Map_def)

lemma keyed_section_Nil: "no_changes (keyed_section pA pB [] [])"
  by (simp add: keyed_section_def no_changes_def map_keys_def)

text \<open>
  A category whose row sequence is empty on both sides has an empty sub-result, whenever
  the orchestrator returns.
\<close>

lemma empty_rows_empty_sections:
  assumes "diffSchemas a b la lb = Inr d"
  shows "tables a = [] \<and> tables b = [] \<longrightarrow>
           tables_diff d = \<lparr> onlyInA = [], onlyInB = [], common = [] \<rparr>"
    and "columns a = [] \<and> columns b = [] \<longrightarrow> columns_diff d = []"
    and "indexes a = [] \<and> indexes b = [] \<longrightarrow> no_changes (indexes_diff d)"
    and "foreignKeys a = [] \<and> foreignKeys b = [] \<longrightarrow> no_changes (foreignKeys_diff d)"
    and "enums a = [] \<and> enums b = [] \<longrightarrow> no_changes (enums_diff d)"
    and "policies a = [] \<and> policies b = [] \<longrightarrow> no_changes (policies_diff d)"
    and "db_functions a = [] \<and> db_functions b = [] \<longrightarrow> no_changes (functions_diff d)"
    and "triggers a = [] \<and> triggers b = [] \<longrightarrow> no_changes (triggers_diff d)"
proof -
  note parts = diffSchemas_Inr [OF assms]
  show "tables a = [] \<and> tables b = [] \<longrightarrow>
           tables_diff d = \<lparr> onlyInA = [], onlyInB = [], common = [] \<rparr>"
    by (simp add: parts(3) diffTables_def)
  show "columns a = [] \<and> columns b = [] \<longrightarrow> columns_diff d = []"
    using parts(1) by (auto simp: diffColumns_def groupBy_def Object_keys_def)
  show "indexes a = [] \<and> indexes b = [] \<longrightarrow> no_changes (indexes_diff d)"
    by (simp add: parts(4) diffIndexes_def keyed_section_Nil)
  show "foreignKeys a = [] \<and> foreignKeys b = [] \<longrightarrow> no_changes (foreignKeys_diff d)"
    by (simp add: parts(5) diffForeignKeys_def keyed_section_Nil)
  show "enums a = [] \<and> enums b = [] \<longrightarrow> no_changes (enums_diff d)"
  proof
    assume "enums a = [] \<and> enums b = []"
    with parts(2) have "enums_diff d = \<lparr> onlyInA = [], onlyInB = [], changed = [] \<rparr>"
      by (simp add: diffEnums_def buildMap_def Object_keys_def)
    then show "no_changes (enums_diff d)" by (simp add: no_changes_def)
  qed
  show "policies a = [] \<and> policies b = [] \<longrightarrow> no_changes (policies_diff d)"
    by (simp add: parts(6) diffPolicies_def keyed_section_Nil)
  show "db_functions a = [] \<and> db_functions b = [] \<longrightarrow> no_changes (functions_diff d)"
    by (simp add: parts(7) diffFunctions_def keyed_section_Nil)
  show "triggers a = [] \<and> triggers b = [] \<longrightarrow> no_changes (triggers_diff d)"
    by (simp add: parts(8) diffTriggers_def keyed_section_Nil)
qed

text \<open>
  Claim C1: \<^verbatim>\<open>diffSchemas\<close> never throws for well-formed snapshots, and empty categories
  give empty sub-results. The second half is \<open>empty_rows_empty_sections\<close>; the first
  half fails. A snapshot whose only row is a column of a table named \<^verbatim>\<open>constructor\<close> is
  well formed, and on it \<^verbatim>\<open>groupBy\<close> finds the inherited \<^verbatim>\<open>Object.prototype.constructor\<close>
  under \<^verbatim>\<open>result[key]\<close>, creates no array and calls \<^verbatim>\<open>push\<close> on a function: the
  call ends in a \<^verbatim>\<open>TypeError\<close>. \<open>diffSchemas_Inr_iff\<close> says these names are the
  only inputs on which it throws.
\<close>

theorem diffSchemas_throws_on_constructor_table:
  "diffSchemas (no_rows\<lparr>columns := [text_column ''constructor'' ''id'' ''NO'']\<rparr>) no_rows
     ''Database A'' ''Database B'' = Inl TypeError"
  by code_simp

subsection \<open>The stats aggregator\<close>

lemma column_totals_sums:
  "column_totals ts (x, y, z) =
     (x + sum_list (map (\<lambda>t. length (onlyInA t)) ts),
      y + sum_list (map (\<lambda>t. length (onlyInB t)) ts),
      z + sum_list (map (\<lambda>t. length (changed t)) ts))"
  by (induction ts arbitrary: x y z) auto

lemma mset_Object_keys: "mset (Object_keys obj) = mset (map fst obj)"
  by (simp add: Object_keys_def)

lemma sum_list_Object_values:
  assumes "distinct (map fst obj)"
  shows "sum_list (map f (Object_values obj)) = (\<Sum>(k, v)\<leftarrow>obj. (f v :: nat))"
proof -
  let ?g = "\<lambda>k. case map_of obj k of Some v \<Rightarrow> f v | None \<Rightarrow> 0"
  have "sum_list (map f (concat (map (\<lambda>k. case map_of obj k of Some v \<Rightarrow> [v] | None \<Rightarrow> []) ks)))
          = sum_list (map ?g ks)" for ks
    by (induction ks) (auto split: option.splits)
  then have "sum_list (map f (Object_values obj)) = sum_list (map ?g (Object_keys obj))"
    by (simp add: Object_values_def)
  also have "\<dots> = sum_mset (image_mset ?g (mset (Object_keys obj)))"
    by (metis mset_map sum_mset_sum_list)
  also have "\<dots> = sum_list (map ?g (map fst obj))"
    unfolding mset_Object_keys by (metis mset_map sum_mset_sum_list)
  also have "\<dots> = (\<Sum>(k, v)\<leftarrow>obj. f v)"
  proof -
    have "?g (fst p) = (case p of (k, v) \<Rightarrow> f v)" if "p \<in> set obj" for p
    proof -
      obtain k v where p: "p = (k, v)" by (cases p)
      with that have "map_of obj k = Some v" by (simp add: map_of_is_SomeI [OF assms])
      then show ?thesis by (simp add: p)
    qed
    then have eq: "map (\<lambda>p. ?g (fst p)) obj = map (\<lambda>(k, v). f v) obj"
      by (intro map_cong refl)
    have "sum_list (map ?g (map fst obj)) = sum_list (map (\<lambda>p. ?g (fst p)) obj)"
      by (simp add: comp_def)
    then show ?thesis by (simp only: eq)
  qed
  finally show ?thesis .
qed

text \<open>
  Claim C9: for a result of \<^verbatim>\<open>diffSchemas\<close>, \<^verbatim>\<open>computeStats\<close> returns the record whose
  three column counts are the sums of the lengths of \<^verbatim>\<open>onlyInA\<close>, \<^verbatim>\<open>onlyInB\<close> and
  \<^verbatim>\<open>changed\<close> over all table entries of the columns sub-result, whose \<^verbatim>\<open>tablesCommon\<close>
  is the length of \<^verbatim>\<open>tables.common\<close>, and whose other fields are the lengths of the
  corresponding lists. The function is total and reads its argument only.
\<close>

theorem computeStats_counts:
  assumes "diffSchemas a b la lb = Inr d"
  shows "computeStats d =
     \<lparr> tablesOnlyA = length (onlyInA (tables_diff d)),
       tablesOnlyB = length (onlyInB (tables_diff d)),
       tablesCommon = length (common (tables_diff d)),
       columnsOnlyA = (\<Sum>(t, e)\<leftarrow>columns_diff d. length (onlyInA e)),
       columnsOnlyB = (\<Sum>(t, e)\<leftarrow>columns_diff d. length (onlyInB e)),
       columnsChanged = (\<Sum>(t, e)\<leftarrow>columns_diff d. length (changed e)),
       indexesOnlyA = length (onlyInA (indexes_diff d)),
       indexesOnlyB = length (onlyInB (indexes_diff d)),
       indexesChanged = length (changed (indexes_diff d)),
       fksOnlyA = length (onlyInA (foreignKeys_diff d)),
       fksOnlyB = length (onlyInB (foreignKeys_diff d)),
       fksChanged = length (changed (foreignKeys_diff d)),
       enumsOnlyA = length (onlyInA (enums_diff d)),
       enumsOnlyB = length (onlyInB (enums_diff d)),
       enumsChanged = length (changed (enums_diff d)),
       policiesOnlyA = length (onlyInA (policies_diff d)),
       policiesOnlyB = length (onlyInB (policies_diff d)),
       policiesChanged = length (changed (policies_diff d)),
       functionsOnlyA = length (onlyInA (functions_diff d)),
       functionsOnlyB = length (onlyInB (functions_diff d)),
       functionsChanged = length (changed (functions_diff d)),
       triggersOnlyA = length (onlyInA (triggers_diff d)),
       triggersOnlyB = length (onlyInB (triggers_diff d)),
       triggersChanged = length (changed (triggers_diff d)) \<rparr>"
proof -
  have dist: "distinct (map fst (columns_diff d))"
    using diffColumns_Inr(1) [OF diffSchemas_Inr(1) [OF assms]] .
  show ?thesis
    by (simp add: computeStats_def column_totals_sums sum_list_Object_values [OF dist])
qed

theorem computeStats_counts_witness:
  "diffSchemas staging production ''staging'' ''production'' = Inr staging_vs_production
   \<and> computeStats staging_vs_production =
     \<lparr> tablesOnlyA = 1, tablesOnlyB = 1, tablesCommon = 1,
       columnsOnlyA = 2, columnsOnlyB = 1, columnsChanged = 1,
       indexesOnlyA = 0, indexesOnlyB = 0, indexesChanged = 1,
       fksOnlyA = 0, fksOnlyB = 0, fksChanged = 1,
       enumsOnlyA = 0, enumsOnlyB = 0, enumsChanged = 1,
       policiesOnlyA = 0, policiesOnlyB = 0, policiesChanged = 0,
       functionsOnlyA = 0, functionsOnlyB = 0, functionsChanged = 1,
       triggersOnlyA = 0, triggersOnlyB = 0, triggersChanged = 0 \<rparr>"
  using computeStats_counts [OF staging_vs_production_eq] staging_vs_production_eq
  by (simp add: staging_vs_production_def)

subsection \<open>A snapshot against itself\<close>

lemma sort_new_Set: "sort (new_Set xs) = sorted_list_of_set (set xs)"
  by (rule sorted_distinct_set_unique) simp_all

lemma diffTables_self:
  "diffTables s s = \<lparr> onlyInA = [], onlyInB = [],
                       common = sorted_list_of_set (table_name ` set (tables s)) \<rparr>"
proof -
  let ?ns = "new_Set (map table_name (tables s))"
  have "filter (\<lambda>n. \<not> set_has ?ns n) ?ns = []" by (simp add: set_has_def)
  moreover have "filter (\<lambda>n. set_has ?ns n) ?ns = ?ns"
    by (simp add: set_has_def del: set_new_Set)
  ultimately show ?thesis
    by (simp add: diffTables_def Let_def sort_new_Set del: set_new_Set)
qed

lemma keyed_section_self: "no_changes (keyed_section pA pB m m)"
  by (auto simp: keyed_section_def no_changes_def map_has_def map_keys_def filter_empty_conv
        map_of_eq_None_iff)

lemma compare_fields_self: "compare_fields fs r r = []"
  by (induction fs) auto

lemma column_delta_self: "column_delta cs cs n = []"
  by (simp add: column_delta_def compare_fields_self split: option.splits)

lemma table_changes_self: "no_changes (table_changes cs cs)"
  by (simp add: table_changes_def no_changes_def column_delta_self)

lemma map_of_all_None: "(\<And>k. map_of xs k = None) \<Longrightarrow> xs = []"
proof (cases xs)
  case Nil
  then show ?thesis by simp
next
  case (Cons x xs')
  assume "\<And>k. map_of xs k = None"
  from this [of "fst x"] Cons show ?thesis by (cases x) simp
qed

lemma enum_changes_self: "enum_changes es es ns = []"
  by (simp add: enum_changes_def)

text \<open>
  Whenever \<^verbatim>\<open>diffSchemas(S, S, labelA, labelB)\<close> returns, its result has empty
  \<^verbatim>\<open>onlyInA\<close>, \<^verbatim>\<open>onlyInB\<close> and \<^verbatim>\<open>changed\<close> in all eight categories, the columns
  sub-result has no table key, and \<^verbatim>\<open>tables.common\<close> is the sorted list of the distinct
  table names of \<open>S\<close>.
\<close>

lemma diff_with_itself_returning:
  assumes "diffSchemas s s la lb = Inr d"
  shows "onlyInA (tables_diff d) = [] \<and> onlyInB (tables_diff d) = []
     \<and> common (tables_diff d) = sorted_list_of_set (table_name ` set (tables s))
     \<and> columns_diff d = []
     \<and> no_changes (indexes_diff d) \<and> no_changes (foreignKeys_diff d)
     \<and> no_changes (enums_diff d) \<and> no_changes (policies_diff d)
     \<and> no_changes (functions_diff d) \<and> no_changes (triggers_diff d)"
proof -
  note parts = diffSchemas_Inr [OF assms]
  have tabs: "onlyInA (tables_diff d) = [] \<and> onlyInB (tables_diff d) = []
     \<and> common (tables_diff d) = sorted_list_of_set (table_name ` set (tables s))"
    by (simp add: parts(3) diffTables_self)
  have "map_of (columns_diff d) t = None" for t
    using diffColumns_Inr(2) [OF parts(1), of t] by (simp add: table_changes_self)
  then have cols: "columns_diff d = []" by (rule map_of_all_None)
  have ens: "no_changes (enums_diff d)"
  proof -
    from diffEnums_Inr(1) [OF parts(2)] have "changed (enums_diff d) = []"
      by (auto simp: enum_changes_self)
    moreover from diffEnums_Inr(2) [OF parts(2)] have "onlyInA (enums_diff d) = []" by simp
    moreover from diffEnums_Inr(3) [OF parts(2)] have "onlyInB (enums_diff d) = []" by simp
    ultimately show ?thesis by (simp add: no_changes_def)
  qed
  have keyed: "no_changes (indexes_diff d)" "no_changes (foreignKeys_diff d)"
    "no_changes (policies_diff d)" "no_changes (functions_diff d)" "no_changes (triggers_diff d)"
    by (simp_all add: parts diffIndexes_def diffForeignKeys_def diffPolicies_def
          diffFunctions_def diffTriggers_def keyed_section_self)
  from tabs cols ens keyed show ?thesis by simp
qed

lemma diff_with_itself_returning_example:
  "diffSchemas staging staging ''left'' ''right'' =
     Inr \<lparr> labelA = ''left'', labelB = ''right'',
           tables_diff = \<lparr> onlyInA = [], onlyInB = [], common = [''orders'', ''users''] \<rparr>,
           columns_diff = [],
           indexes_diff = \<lparr> onlyInA = [], onlyInB = [], changed = [] \<rparr>,
           foreignKeys_diff = \<lparr> onlyInA = [], onlyInB = [], changed = [] \<rparr>,
           enums_diff = \<lparr> onlyInA = [], onlyInB = [], changed = [] \<rparr>,
           policies_diff = \<lparr> onlyInA = [], onlyInB = [], changed = [] \<rparr>,
           functions_diff = \<lparr> onlyInA = [], onlyInB = [], changed = [] \<rparr>,
           triggers_diff = \<lparr> onlyInA = [], onlyInB = [], changed = [] \<rparr> \<rparr>
   \<and> sorted_list_of_set (table_name ` set (tables staging)) = [''orders'', ''users'']"
proof -
  have h: "diffSchemas staging staging ''left'' ''right'' =
     Inr \<lparr> labelA = ''left'', labelB = ''right'',
           tables_diff = \<lparr> onlyInA = [], onlyInB = [], common = [''orders'', ''users''] \<rparr>,
           columns_diff = [],
           indexes_diff = \<lparr> onlyInA = [], onlyInB = [], changed = [] \<rparr>,
           foreignKeys_diff = \<lparr> onlyInA = [], onlyInB = [], changed = [] \<rparr>,
           enums_diff = \<lparr> onlyInA = [], onlyInB = [], changed = [] \<rparr>,
           policies_diff = \<lparr> onlyInA = [], onlyInB = [], changed = [] \<rparr>,
           functions_diff = \<lparr> onlyInA = [], onlyInB = [], changed = [] \<rparr>,
           triggers_diff = \<lparr> onlyInA = [], onlyInB = [], changed = [] \<rparr> \<rparr>"
    by code_simp
  from diff_with_itself_returning [OF h] h show ?thesis by simp
qed

text \<open>
  Claim C2: for every snapshot \<open>S\<close>, \<^verbatim>\<open>diffSchemas(S, S, labelA, labelB)\<close> yields empty
  \<^verbatim>\<open>onlyInA\<close>, \<^verbatim>\<open>onlyInB\<close> and \<^verbatim>\<open>changed\<close> in all eight categories and
  \<^verbatim>\<open>tables.common\<close> equal to the sorted distinct table names of \<open>S\<close>. By
  \<open>diff_with_itself_returning\<close> this holds of every result the call returns, but the call
  does not return for every \<open>S\<close>: on a snapshot with a column of a table named
  \<^verbatim>\<open>constructor\<close>, \<^verbatim>\<open>groupBy\<close> throws as in claim C1 and the call yields no result.
\<close>

theorem diff_with_itself_throws_on_constructor_table:
  "diffSchemas (no_rows\<lparr>tables := [\<lparr> table_name = ''constructor'' \<rparr>],
                        columns := [text_column ''constructor'' ''id'' ''NO'']\<rparr>)
               (no_rows\<lparr>tables := [\<lparr> table_name = ''constructor'' \<rparr>],
                        columns := [text_column ''constructor'' ''id'' ''NO'']\<rparr>)
     ''Database A'' ''Database B'' = Inl TypeError"
  by code_simp

subsection \<open>Order of the reported names\<close>

text \<open>
  Claim C3 says every \<^verbatim>\<open>onlyInA\<close>/\<^verbatim>\<open>onlyInB\<close> list, the per-table column lists
  included, is sorted and duplicate-free. \<^verbatim>\<open>diffColumns\<close> does not sort: its lists
  keep the order in which the \<^verbatim>\<open>Set\<close> of column names was filled.
\<close>

theorem column_lists_unsorted:
  "map_sum id columns_diff
     (diffSchemas
        (no_rows\<lparr>columns := [text_column ''users'' ''zip'' ''YES'',
                              text_column ''users'' ''city'' ''YES'']\<rparr>)
        no_rows ''A'' ''B'')
     = Inr [(''users'', \<lparr> onlyInA = [''zip'', ''city''], onlyInB = [], changed = [] \<rparr>)]
   \<and> \<not> sorted [''zip'', ''city'']"
  by code_simp

text \<open>
  Claim C3, amended: in the tables, indexes, foreign keys, enums, policies, functions
  and triggers sub-results every \<^verbatim>\<open>onlyInA\<close> and \<^verbatim>\<open>onlyInB\<close> list is lexicographically
  sorted and has no duplicates; the per-table \<^verbatim>\<open>onlyInA\<close>/\<^verbatim>\<open>onlyInB\<close> lists of the
  columns sub-result have no duplicates and list the column names in the order of
  their first occurrence among the snapshot's rows of that table.
\<close>

theorem only_lists_sorted_except_columns:
  assumes "diffSchemas a b la lb = Inr d"
  shows "sorted_no_dups (onlyInA (tables_diff d)) \<and> sorted_no_dups (onlyInB (tables_diff d))
     \<and> sorted_no_dups (onlyInA (indexes_diff d)) \<and> sorted_no_dups (onlyInB (indexes_diff d))
     \<and> sorted_no_dups (onlyInA (foreignKeys_diff d)) \<and> sorted_no_dups (onlyInB (foreignKeys_diff d))
     \<and> sorted_no_dups (onlyInA (enums_diff d)) \<and> sorted_no_dups (onlyInB (enums_diff d))
     \<and> sorted_no_dups (onlyInA (policies_diff d)) \<and> sorted_no_dups (onlyInB (policies_diff d))
     \<and> sorted_no_dups (onlyInA (functions_diff d)) \<and> sorted_no_dups (onlyInB (functions_diff d))
     \<and> sorted_no_dups (onlyInA (triggers_diff d)) \<and> sorted_no_dups (onlyInB (triggers_diff d))
     \<and> (map_of (columns_diff d) t = Some e \<longrightarrow>
           distinct (onlyInA e) \<and> distinct (onlyInB e)
           \<and> onlyInA e = filter (\<lambda>n. \<not> has_column b t n)
                            (new_Set (map column_name (rows_of t (columns a))))
           \<and> onlyInB e = filter (\<lambda>n. \<not> has_column a t n)
                            (new_Set (map column_name (rows_of t (columns b)))))"
proof -
  note parts = diffSchemas_Inr [OF assms]
  have tabs: "sorted_no_dups (onlyInA (tables_diff d)) \<and> sorted_no_dups (onlyInB (tables_diff d))"
    using diffTables_props(1,2) [of a b] by (simp add: parts(3) sorted_no_dups_def)
  have ens: "sorted_no_dups (onlyInA (enums_diff d)) \<and> sorted_no_dups (onlyInB (enums_diff d))"
    using diffEnums_Inr(2,3) [OF parts(2)] by (simp add: sorted_no_dups_def)
  have keyed: "sorted_no_dups (onlyInA (keyed_section pA pB (new_Map esA) (new_Map esB)))
      \<and> sorted_no_dups (onlyInB (keyed_section pA pB (new_Map esA) (new_Map esB)))"
    for pA pB esA esB
    using keyed_section_onlyInA [of pA pB esA esB] keyed_section_onlyInB [of pA pB esA esB]
    by (simp add: sorted_no_dups_def)
  have cols: "distinct (onlyInA e) \<and> distinct (onlyInB e)
           \<and> onlyInA e = filter (\<lambda>n. \<not> has_column b t n)
                            (new_Set (map column_name (rows_of t (columns a))))
           \<and> onlyInB e = filter (\<lambda>n. \<not> has_column a t n)
                            (new_Set (map column_name (rows_of t (columns b))))"
    if "map_of (columns_diff d) t = Some e"
  proof -
    from that diffColumns_Inr(2) [OF parts(1), of t]
    have e: "e = table_changes (rows_of t (columns a)) (rows_of t (columns b))"
      by (simp split: if_splits)
    show ?thesis
      unfolding e by (simp add: table_changes_def names_rows_of)
  qed
  from tabs ens cols show ?thesis
    by (simp add: parts(4-8) diffIndexes_def diffForeignKeys_def diffPolicies_def
          diffFunctions_def diffTriggers_def keyed)
qed

theorem only_lists_sorted_except_columns_witness:
  "diffSchemas staging production ''staging'' ''production'' = Inr staging_vs_production
   \<and> map_of (columns_diff staging_vs_production) ''users''
       = Some \<lparr> onlyInA = [''zip'', ''city''], onlyInB = [''phone''],
                changed =
                  [\<lparr> column = ''email'',
                      differences =
                        [\<lparr> field = ''is_nullable'', valueA = JStr ''YES'', valueB = JStr ''NO'' \<rparr>] \<rparr>] \<rparr>
   \<and> sorted_no_dups (onlyInA (tables_diff staging_vs_production))
   \<and> sorted_no_dups (onlyInB (tables_diff staging_vs_production))
   \<and> distinct [''zip'', ''city''] \<and> distinct [''phone'']
   \<and> [''zip'', ''city''] = filter (\<lambda>n. \<not> has_column production ''users'' n)
                            (new_Set (map column_name (rows_of ''users'' (columns staging))))"
proof -
  let ?e = "\<lparr> onlyInA = [''zip'', ''city''], onlyInB = [''phone''],
                changed =
                  [\<lparr> column = ''email'',
                      differences =
                        [\<lparr> field = ''is_nullable'', valueA = JStr ''YES'', valueB = JStr ''NO'' \<rparr>] \<rparr>] \<rparr>"
  have e: "map_of (columns_diff staging_vs_production) ''users'' = Some ?e"
    by (simp add: staging_vs_production_def)
  from only_lists_sorted_except_columns
         [OF staging_vs_production_eq, where t = "''users''" and e = ?e] e
    staging_vs_production_eq
  show ?thesis by simp
qed

subsection \<open>Which tables the column diff reports\<close>

lemma first_column_first:
  "first_column s t n = Some c \<longleftrightarrow>
     (\<exists>i<length (columns s). columns s ! i = c \<and> col_table_name c = t \<and> column_name c = n
        \<and> (\<forall>j<i. \<not> (col_table_name (columns s ! j) = t \<and> column_name (columns s ! j) = n)))"
  by (auto simp: first_column_def find_Some_iff)

lemma column_delta_nonempty:
  "(has_column a t n \<and> has_column b t n
      \<and> column_delta (rows_of t (columns a)) (rows_of t (columns b)) n \<noteq> [])
   \<longleftrightarrow> (\<exists>ca cb. first_column a t n = Some ca \<and> first_column b t n = Some cb
          \<and> compare_fields column_fields ca cb \<noteq> [])"
  using first_column_None [of a t n] first_column_None [of b t n]
  by (auto simp: column_delta_first split: option.splits)

text \<open>
  Whenever \<^verbatim>\<open>diffSchemas\<close> returns, a table name is a key of the columns sub-result
  exactly when the table has an only-in-A column, an only-in-B column or a changed
  column; an entry is never three empty lists.
\<close>

lemma column_tables_reported_returning:
  assumes "diffSchemas a b la lb = Inr d"
  shows "(t \<in> set (Object_keys (columns_diff d)) \<longleftrightarrow>
            (\<exists>n. has_column a t n \<and> \<not> has_column b t n)
          \<or> (\<exists>n. has_column b t n \<and> \<not> has_column a t n)
          \<or> (\<exists>n ca cb. first_column a t n = Some ca \<and> first_column b t n = Some cb
                \<and> compare_fields column_fields ca cb \<noteq> []))
     \<and> (map_of (columns_diff d) t = Some e \<longrightarrow>
            onlyInA e \<noteq> [] \<or> onlyInB e \<noteq> [] \<or> changed e \<noteq> [])"
proof -
  let ?tc = "table_changes (rows_of t (columns a)) (rows_of t (columns b))"
  have m: "map_of (columns_diff d) t = (if no_changes ?tc then None else Some ?tc)"
    using diffColumns_Inr(2) [OF diffSchemas_Inr(1) [OF assms]] .
  have "t \<in> set (Object_keys (columns_diff d)) \<longleftrightarrow> map_of (columns_diff d) t \<noteq> None"
    by (simp add: map_of_eq_None_iff)
  also have "\<dots> \<longleftrightarrow> \<not> no_changes ?tc" by (simp add: m)
  also have "\<dots> \<longleftrightarrow>
            (\<exists>n. has_column a t n \<and> \<not> has_column b t n)
          \<or> (\<exists>n. has_column b t n \<and> \<not> has_column a t n)
          \<or> (\<exists>n ca cb. first_column a t n = Some ca \<and> first_column b t n = Some cb
                \<and> compare_fields column_fields ca cb \<noteq> [])"
    by (simp only: table_changes_nonempty names_rows_of column_delta_nonempty)
  finally have keys: "t \<in> set (Object_keys (columns_diff d)) \<longleftrightarrow>
            (\<exists>n. has_column a t n \<and> \<not> has_column b t n)
          \<or> (\<exists>n. has_column b t n \<and> \<not> has_column a t n)
          \<or> (\<exists>n ca cb. first_column a t n = Some ca \<and> first_column b t n = Some cb
                \<and> compare_fields column_fields ca cb \<noteq> [])" .
  have "onlyInA e \<noteq> [] \<or> onlyInB e \<noteq> [] \<or> changed e \<noteq> []"
    if "map_of (columns_diff d) t = Some e"
    using that m by (auto simp: no_changes_def split: if_splits)
  with keys show ?thesis by blast
qed

lemma column_tables_reported_returning_example:
  "diffSchemas staging production ''staging'' ''production'' = Inr staging_vs_production
   \<and> has_column staging ''users'' ''zip'' \<and> \<not> has_column production ''users'' ''zip''
   \<and> ''users'' \<in> set (Object_keys (columns_diff staging_vs_production))
   \<and> has_column staging ''orders'' ''note'' \<and> has_column production ''orders'' ''note''
   \<and> ''orders'' \<notin> set (Object_keys (columns_diff staging_vs_production))
   \<and> \<not> (\<exists>n. has_column staging ''orders'' n \<and> \<not> has_column production ''orders'' n)"
proof -
  have zip: "has_column staging ''users'' ''zip'' \<and> \<not> has_column production ''users'' ''zip''"
    by (simp add: has_column_def staging_def production_def text_column_def)
  have both: "has_column staging ''orders'' ''note'' \<and> has_column production ''orders'' ''note''"
    by (simp add: has_column_def staging_def production_def text_column_def)
  have absent: "''orders'' \<notin> set (Object_keys (columns_diff staging_vs_production))"
    by (simp add: staging_vs_production_def)
  from column_tables_reported_returning [OF staging_vs_production_eq, where t = "''users''"] zip
  have users: "''users'' \<in> set (Object_keys (columns_diff staging_vs_production))" by blast
  from column_tables_reported_returning [OF staging_vs_production_eq, where t = "''orders''"] absent
  have "\<not> (\<exists>n. has_column staging ''orders'' n \<and> \<not> has_column production ''orders'' n)"
    by blast
  with zip both absent users staging_vs_production_eq show ?thesis by blast
qed

text \<open>
  Claim C7: for every pair of snapshots, a table name is a key of the columns sub-result
  if and only if the table has an only-in-A column, an only-in-B column or a changed
  column. By \<open>column_tables_reported_returning\<close> this holds of every result the call
  returns, but the "if" direction fails where the call throws: with A holding the
  columns \<^verbatim>\<open>users.zip\<close> and \<^verbatim>\<open>constructor.id\<close> and B empty, table \<^verbatim>\<open>users\<close> has an
  only-in-A column, yet \<^verbatim>\<open>groupBy\<close> throws as in claim C1 and there is no columns
  sub-result for \<^verbatim>\<open>users\<close> to be a key of.
\<close>

theorem reported_table_lost_to_constructor_table:
  "has_column (no_rows\<lparr>columns := [text_column ''users'' ''zip'' ''YES'',
                                      text_column ''constructor'' ''id'' ''NO'']\<rparr>)
              ''users'' ''zip''
   \<and> \<not> has_column no_rows ''users'' ''zip''
   \<and> diffSchemas (no_rows\<lparr>columns := [text_column ''users'' ''zip'' ''YES'',
                                         text_column ''constructor'' ''id'' ''NO'']\<rparr>)
                   no_rows ''Database A'' ''Database B'' = Inl TypeError"
proof -
  have "diffSchemas (no_rows\<lparr>columns := [text_column ''users'' ''zip'' ''YES'',
                                         text_column ''constructor'' ''id'' ''NO'']\<rparr>)
                   no_rows ''Database A'' ''Database B'' = Inl TypeError"
    by code_simp
  then show ?thesis by (simp add: has_column_def no_rows_def text_column_def)
qed

subsection \<open>Repeated column rows\<close>

lemma changed_for_column_entry:
  assumes "diffSchemas a b la lb = Inr d"
    and "first_column a t n = Some ca" and "first_column b t n = Some cb"
  shows "filter (\<lambda>ch. column ch = n) (changed (columns_entry d t)) =
     (if compare_fields column_fields ca cb = [] then []
      else [\<lparr> column = n, differences = compare_fields column_fields ca cb \<rparr>])"
proof -
  have "n \<in> column_name ` set (rows_of t (columns a))"
    "n \<in> column_name ` set (rows_of t (columns b))"
    using assms(2,3) by (simp_all add: names_rows_of first_column_Some)
  moreover have "column_delta (rows_of t (columns a)) (rows_of t (columns b)) n
      = compare_fields column_fields ca cb"
    by (simp add: column_delta_first assms(2,3))
  ultimately show ?thesis
    by (simp add: columns_entry_eq [OF assms(1)] changed_for_column)
qed

text \<open>
  Claim C10: when a snapshot repeats a (table, column) pair, the column diff compares the
  first such row of each side, and a column name appears at most once across the
  \<^verbatim>\<open>onlyInA\<close>, \<^verbatim>\<open>onlyInB\<close> and \<^verbatim>\<open>changed\<close> lists of its table. (\<open>first_column\<close> is the
  first matching row: lemma \<open>first_column_first\<close>.)
\<close>

theorem column_duplicates_first_wins:
  assumes "diffSchemas a b la lb = Inr d"
  shows "distinct (onlyInA (columns_entry d t) @ onlyInB (columns_entry d t)
                   @ map column (changed (columns_entry d t)))
     \<and> (first_column a t n = Some ca \<and> first_column b t n = Some cb \<longrightarrow>
          filter (\<lambda>ch. column ch = n) (changed (columns_entry d t)) =
            (if compare_fields column_fields ca cb = [] then []
             else [\<lparr> column = n, differences = compare_fields column_fields ca cb \<rparr>]))"
  using changed_for_column_entry [OF assms, of t n ca cb] table_changes_distinct
  by (simp add: columns_entry_eq [OF assms])

theorem column_duplicates_first_wins_witness:
  "diffSchemas staging production ''staging'' ''production'' = Inr staging_vs_production
   \<and> columns staging ! 2 = text_column ''users'' ''email'' ''YES''
   \<and> columns staging ! 3 = text_column ''users'' ''email'' ''NO''
   \<and> first_column staging ''users'' ''email'' = Some (text_column ''users'' ''email'' ''YES'')
   \<and> first_column production ''users'' ''email'' = Some (text_column ''users'' ''email'' ''NO'')
   \<and> filter (\<lambda>ch. column ch = ''email'') (changed (columns_entry staging_vs_production ''users''))
       = [\<lparr> column = ''email'',
             differences =
               [\<lparr> field = ''is_nullable'', valueA = JStr ''YES'', valueB = JStr ''NO'' \<rparr>] \<rparr>]
   \<and> distinct ([''zip'', ''city''] @ [''phone''] @ [''email''])"
proof -
  have rows: "columns staging ! 2 = text_column ''users'' ''email'' ''YES''
      \<and> columns staging ! 3 = text_column ''users'' ''email'' ''NO''"
    by (simp add: staging_def)
  have fa: "first_column staging ''users'' ''email'' = Some (text_column ''users'' ''email'' ''YES'')"
    by (simp add: first_column_def staging_def text_column_def)
  have fb: "first_column production ''users'' ''email'' = Some (text_column ''users'' ''email'' ''NO'')"
    by (simp add: first_column_def production_def text_column_def)
  have cmp: "compare_fields column_fields (text_column ''users'' ''email'' ''YES'')
        (text_column ''users'' ''email'' ''NO'')
      = [\<lparr> field = ''is_nullable'', valueA = JStr ''YES'', valueB = JStr ''NO'' \<rparr>]"
    by code_simp
  have entry: "columns_entry staging_vs_production ''users''
      = \<lparr> onlyInA = [''zip'', ''city''], onlyInB = [''phone''],
          changed =
            [\<lparr> column = ''email'',
                differences =
                  [\<lparr> field = ''is_nullable'', valueA = JStr ''YES'', valueB = JStr ''NO'' \<rparr>] \<rparr>] \<rparr>"
    by (simp add: columns_entry_def staging_vs_production_def)
  from column_duplicates_first_wins
         [OF staging_vs_production_eq, where t = "''users''" and n = "''email''"
            and ca = "text_column ''users'' ''email'' ''YES''"
            and cb = "text_column ''users'' ''email'' ''NO''"]
    fa fb
  have "distinct (onlyInA (columns_entry staging_vs_production ''users'')
                  @ onlyInB (columns_entry staging_vs_production ''users'')
                  @ map column (changed (columns_entry staging_vs_production ''users'')))
     \<and> filter (\<lambda>ch. column ch = ''email'') (changed (columns_entry staging_vs_production ''users''))
         = [\<lparr> column = ''email'',
               differences =
                 [\<lparr> field = ''is_nullable'', valueA = JStr ''YES'', valueB = JStr ''NO'' \<rparr>] \<rparr>]"
    by (simp only: cmp) simp
  then show ?thesis
    using rows fa fb staging_vs_production_eq by (simp add: entry)
qed

subsection \<open>Field-level change detection\<close>



subsection \<open>The keyed categories: which row decides\<close>

lemma last_row_exists: "k \<in> keyFn ` set rows \<Longrightarrow> \<exists>r. last_row keyFn rows k r"
proof (induction rows rule: rev_induct)
  case Nil
  then show ?case by simp
next
  case (snoc x xs)
  show ?case
  proof (cases "keyFn x = k")
    case True
    then have "last_row keyFn (xs @ [x]) k x"
      unfolding last_row_def by (intro exI [of _ "length xs"]) auto
    then show ?thesis ..
  next
    case False
    with snoc.prems have "k \<in> keyFn ` set xs" by auto
    from snoc.IH [OF this] obtain r i where i: "i < length xs" "xs ! i = r" "keyFn r = k"
      and later: "\<forall>j. i < j \<and> j < length xs \<longrightarrow> keyFn (xs ! j) \<noteq> k"
      unfolding last_row_def by blast
    have "\<forall>j. i < j \<and> j < length (xs @ [x]) \<longrightarrow> keyFn ((xs @ [x]) ! j) \<noteq> k"
    proof (intro allI impI)
      fix j
      assume j: "i < j \<and> j < length (xs @ [x])"
      show "keyFn ((xs @ [x]) ! j) \<noteq> k"
      proof (cases "j < length xs")
        case True
        with j later show ?thesis by (simp add: nth_append)
      next
        case False
        with j have "j = length xs" by simp
        with \<open>keyFn x \<noteq> k\<close> show ?thesis by simp
      qed
    qed
    with i have "last_row keyFn (xs @ [x]) k r"
      unfolding last_row_def by (intro exI [of _ i]) (simp add: nth_append)
    then show ?thesis ..
  qed
qed

lemma last_row_key: "last_row keyFn rows k r \<Longrightarrow> k \<in> keyFn ` set rows"
  unfolding last_row_def by (metis imageI nth_mem)

lemma map_get_last_row:
  assumes "last_row keyFn rows k r"
  shows "map_get (new_Map (map (\<lambda>r. (keyFn r, valFn r)) rows)) k = JStr (valFn r)"
proof -
  let ?es = "map (\<lambda>r. (keyFn r, valFn r)) rows"
  from assms obtain i where i: "i < length rows" "rows ! i = r" "keyFn r = k"
    and later: "\<forall>j. i < j \<and> j < length rows \<longrightarrow> keyFn (rows ! j) \<noteq> k"
    unfolding last_row_def by blast
  have "map_of (rev ?es) k = Some (snd (?es ! i))"
  proof (rule map_of_rev_last)
    show "i < length ?es" using i(1) by simp
    show "fst (?es ! i) = k" using i by simp
    show "\<forall>j. i < j \<and> j < length ?es \<longrightarrow> fst (?es ! j) \<noteq> k" using later by simp
  qed
  then show ?thesis using i by (simp add: map_get_def map_of_new_Map)
qed

lemma in_filterD: "x \<in> set (filter P xs) \<Longrightarrow> x \<in> set xs \<and> P x"
  by simp

lemma keyed_changed_entry:
  assumes "e \<in> set (changed (keyed_section propA propB
              (new_Map (map (\<lambda>r. (keyFn r, valFn r)) rowsA))
              (new_Map (map (\<lambda>r. (keyFn r, valFn r)) rowsB))))"
  shows "\<exists>k ra rb. last_row keyFn rowsA k ra \<and> last_row keyFn rowsB k rb
           \<and> valFn ra \<noteq> valFn rb
           \<and> e = [(''key'', JStr k), (propA, JStr (valFn ra)), (propB, JStr (valFn rb))]"
proof -
  let ?mA = "new_Map (map (\<lambda>r. (keyFn r, valFn r)) rowsA)"
  let ?mB = "new_Map (map (\<lambda>r. (keyFn r, valFn r)) rowsB)"
  let ?P = "\<lambda>k. map_has ?mB k \<and> map_get ?mA k \<noteq> map_get ?mB k"
  let ?mk = "\<lambda>k. [(''key'', JStr k), (propA, map_get ?mA k), (propB, map_get ?mB k)]"
  have "changed (keyed_section propA propB ?mA ?mB) = map ?mk (filter ?P (map_keys ?mA))"
    by (simp add: keyed_section_def)
  with assms have "e \<in> ?mk ` set (filter ?P (map_keys ?mA))" by (simp only: set_map)
  then obtain k where kin: "k \<in> set (filter ?P (map_keys ?mA))" and e: "e = ?mk k"
    by (rule imageE)
  note c = in_filterD [OF kin]
  note k1 = c [THEN conjunct1] and k2 = c [THEN conjunct2, THEN conjunct1]
    and k3 = c [THEN conjunct2, THEN conjunct2]
  have fstA: "fst ` set (map (\<lambda>r. (keyFn r, valFn r)) rowsA) = keyFn ` set rowsA"
    by (simp add: image_image)
  have fstB: "fst ` set (map (\<lambda>r. (keyFn r, valFn r)) rowsB) = keyFn ` set rowsB"
    by (simp add: image_image)
  from k1 have inA: "k \<in> keyFn ` set rowsA" by (simp only: map_keys_new_Map fstA)
  from last_row_exists [OF inA] obtain ra where ra: "last_row keyFn rowsA k ra" ..
  from k2 have inB: "k \<in> keyFn ` set rowsB" by (simp only: map_has_new_Map fstB)
  from last_row_exists [OF inB] obtain rb where rb: "last_row keyFn rowsB k rb" ..
  have gA: "map_get ?mA k = JStr (valFn ra)" using ra by (rule map_get_last_row)
  have gB: "map_get ?mB k = JStr (valFn rb)" using rb by (rule map_get_last_row)
  have "JStr (valFn ra) \<noteq> JStr (valFn rb)" using k3 unfolding gA gB .
  then have ne: "valFn ra \<noteq> valFn rb" by simp
  have shape: "e = [(''key'', JStr k), (propA, JStr (valFn ra)), (propB, JStr (valFn rb))]"
    by (simp only: e gA gB)
  from ra rb ne shape show ?thesis by (intro exI conjI)
qed

lemma keyed_last_wins:
  "last_wins keyFn valFn propA propB rowsA rowsB
     (keyed_section propA propB
        (new_Map (map (\<lambda>r. (keyFn r, valFn r)) rowsA))
        (new_Map (map (\<lambda>r. (keyFn r, valFn r)) rowsB)))"
proof -
  let ?mA = "new_Map (map (\<lambda>r. (keyFn r, valFn r)) rowsA)"
  let ?mB = "new_Map (map (\<lambda>r. (keyFn r, valFn r)) rowsB)"
  let ?s = "keyed_section propA propB ?mA ?mB"
  let ?P = "\<lambda>k. map_has ?mB k \<and> map_get ?mA k \<noteq> map_get ?mB k"
  let ?mk = "\<lambda>k. [(''key'', JStr k), (propA, map_get ?mA k), (propB, map_get ?mB k)]"
  have dA: "distinct (map_keys ?mA)" and dB: "distinct (map_keys ?mB)"
    by (rule distinct_map_keys_new_Map)+
  have keys: "map (\<lambda>e. case map_of e ''key'' of Some k \<Rightarrow> k | None \<Rightarrow> JUndefined) (changed ?s)
      = map JStr (filter ?P (map_keys ?mA))"
    by (simp add: keyed_section_def comp_def)
  have inj: "inj_on JStr A" for A by (simp add: inj_on_def)
  have oA: "set (onlyInA ?s) \<subseteq> set (map_keys ?mA) - {k. map_has ?mB k}" and doA: "distinct (onlyInA ?s)"
    using dA by (auto simp: keyed_section_def)
  have oB: "set (onlyInB ?s) \<subseteq> set (map_keys ?mB) - {k. map_has ?mA k}" and doB: "distinct (onlyInB ?s)"
    using dB by (auto simp: keyed_section_def)
  have hasA: "map_has ?mA k" if "k \<in> set (map_keys ?mA)" for k
    using that by (simp add: map_has_new_Map map_keys_new_Map)
  have hasB: "map_has ?mB k" if "k \<in> set (map_keys ?mB)" for k
    using that by (simp add: map_has_new_Map map_keys_new_Map)
  have "distinct (onlyInA ?s @ onlyInB ?s @ filter ?P (map_keys ?mA))"
    using doA doB dA oA oB hasA hasB by (simp only: distinct_append distinct_filter) auto
  then have "distinct (map JStr (onlyInA ?s @ onlyInB ?s @ filter ?P (map_keys ?mA)))"
    by (simp only: distinct_map inj)
  then have "distinct (map JStr (onlyInA ?s) @ map JStr (onlyInB ?s)
               @ map (\<lambda>e. case map_of e ''key'' of Some k \<Rightarrow> k | None \<Rightarrow> JUndefined) (changed ?s))"
    unfolding keys by simp
  moreover have "entries_for k ?s =
             (if valFn ra \<noteq> valFn rb
              then [[(''key'', JStr k), (propA, JStr (valFn ra)), (propB, JStr (valFn rb))]]
              else [])"
    if ra: "last_row keyFn rowsA k ra" and rb: "last_row keyFn rowsB k rb" for k ra rb
  proof -
    have gA: "map_get ?mA k = JStr (valFn ra)" and gB: "map_get ?mB k = JStr (valFn rb)"
      using ra rb by (simp_all add: map_get_last_row)
    have fstA: "fst ` set (map (\<lambda>r. (keyFn r, valFn r)) rowsA) = keyFn ` set rowsA"
      by (simp add: image_image)
    have fstB: "fst ` set (map (\<lambda>r. (keyFn r, valFn r)) rowsB) = keyFn ` set rowsB"
      by (simp add: image_image)
    have inA: "k \<in> set (map_keys ?mA)"
      using last_row_key [OF ra] by (simp only: map_keys_new_Map fstA)
    have inB: "map_has ?mB k"
      using last_row_key [OF rb] by (simp only: map_has_new_Map fstB)
    have "entries_for k ?s = filter (\<lambda>e. map_of e ''key'' = Some (JStr k)) (map ?mk (filter ?P (map_keys ?mA)))"
      by (simp add: entries_for_def keyed_section_def)
    also have "\<dots> = (if k \<in> set (map_keys ?mA) \<and> ?P k then [?mk k] else [])"
      by (rule filter_map_pred_distinct [OF dA]) auto
    finally show ?thesis using inA inB by (simp add: gA gB)
  qed
  moreover have "set (onlyInA ?s) = keyFn ` set rowsA - keyFn ` set rowsB"
    "set (onlyInB ?s) = keyFn ` set rowsB - keyFn ` set rowsA"
    using keyed_section_onlyInA [of propA propB "map (\<lambda>r. (keyFn r, valFn r)) rowsA"
            "map (\<lambda>r. (keyFn r, valFn r)) rowsB"]
      keyed_section_onlyInB [of propA propB "map (\<lambda>r. (keyFn r, valFn r)) rowsA"
            "map (\<lambda>r. (keyFn r, valFn r)) rowsB"]
    by (simp_all add: image_image)
  ultimately show ?thesis unfolding last_wins_def by blast
qed

text \<open>
  Claim C4 says every changed entry of the five keyed categories has exactly the fields
  \<^verbatim>\<open>key\<close>, \<^verbatim>\<open>valueA\<close> and \<^verbatim>\<open>valueB\<close>. \<^verbatim>\<open>diffIndexes\<close> names the two values \<^verbatim>\<open>defA\<close> and
  \<^verbatim>\<open>defB\<close>, and \<^verbatim>\<open>diffFunctions\<close> names them \<^verbatim>\<open>signatureA\<close> and \<^verbatim>\<open>signatureB\<close>.
\<close>

theorem index_and_function_entries_named_otherwise:
  "map_sum id (\<lambda>d. (map (map fst) (changed (indexes_diff d)),
                     map (map fst) (changed (functions_diff d))))
     (diffSchemas
        (no_rows\<lparr>indexes := [\<lparr> tablename = ''users'', indexname = ''users_pkey'',
                                indexdef = ''btree (id)'' \<rparr>],
                  db_functions := [fn_row True]\<rparr>)
        (no_rows\<lparr>indexes := [\<lparr> tablename = ''users'', indexname = ''users_pkey'',
                                indexdef = ''btree (uid)'' \<rparr>],
                  db_functions := [fn_row False]\<rparr>)
        ''A'' ''B'')
     = Inr ([[''key'', ''defA'', ''defB'']], [[''key'', ''signatureA'', ''signatureB'']])"
  by code_simp

text \<open>
  Claim C4, amended: every changed entry of a keyed category is a record of exactly
  three fields, the key and the comparison values derived from the last row with that
  key in A and in B; the value fields are named \<^verbatim>\<open>valueA\<close>/\<^verbatim>\<open>valueB\<close> for foreign
  keys, policies and triggers, \<^verbatim>\<open>defA\<close>/\<^verbatim>\<open>defB\<close> for indexes and
  \<^verbatim>\<open>signatureA\<close>/\<^verbatim>\<open>signatureB\<close> for functions.
\<close>

theorem changed_entry_shape:
  assumes "diffSchemas a b la lb = Inr d"
  shows "(e \<in> set (changed (indexes_diff d)) \<longrightarrow>
            (\<exists>k ra rb. last_row index_key (indexes a) k ra \<and> last_row index_key (indexes b) k rb
               \<and> e = [(''key'', JStr k), (''defA'', JStr (indexdef ra)),
                      (''defB'', JStr (indexdef rb))]))
     \<and> (e \<in> set (changed (foreignKeys_diff d)) \<longrightarrow>
            (\<exists>k ra rb. last_row fk_key (foreignKeys a) k ra \<and> last_row fk_key (foreignKeys b) k rb
               \<and> e = [(''key'', JStr k), (''valueA'', JStr (fk_val ra)),
                      (''valueB'', JStr (fk_val rb))]))
     \<and> (e \<in> set (changed (policies_diff d)) \<longrightarrow>
            (\<exists>k ra rb. last_row policy_key (policies a) k ra \<and> last_row policy_key (policies b) k rb
               \<and> e = [(''key'', JStr k), (''valueA'', JStr (policy_val ra)),
                      (''valueB'', JStr (policy_val rb))]))
     \<and> (e \<in> set (changed (functions_diff d)) \<longrightarrow>
            (\<exists>k ra rb. last_row function_key (db_functions a) k ra
               \<and> last_row function_key (db_functions b) k rb
               \<and> e = [(''key'', JStr k), (''signatureA'', JStr (function_val ra)),
                      (''signatureB'', JStr (function_val rb))]))
     \<and> (e \<in> set (changed (triggers_diff d)) \<longrightarrow>
            (\<exists>k ra rb. last_row trigger_key (triggers a) k ra \<and> last_row trigger_key (triggers b) k rb
               \<and> e = [(''key'', JStr k), (''valueA'', JStr (trigger_val ra)),
                      (''valueB'', JStr (trigger_val rb))]))"
proof -
  note parts = diffSchemas_Inr [OF assms]
  have "e \<in> set (changed (indexes_diff d)) \<longrightarrow>
            (\<exists>k ra rb. last_row index_key (indexes a) k ra \<and> last_row index_key (indexes b) k rb
               \<and> e = [(''key'', JStr k), (''defA'', JStr (indexdef ra)),
                      (''defB'', JStr (indexdef rb))])"
    unfolding parts(4) diffIndexes_def using keyed_changed_entry by blast
  moreover have "e \<in> set (changed (foreignKeys_diff d)) \<longrightarrow>
            (\<exists>k ra rb. last_row fk_key (foreignKeys a) k ra \<and> last_row fk_key (foreignKeys b) k rb
               \<and> e = [(''key'', JStr k), (''valueA'', JStr (fk_val ra)),
                      (''valueB'', JStr (fk_val rb))])"
    unfolding parts(5) diffForeignKeys_def using keyed_changed_entry by blast
  moreover have "e \<in> set (changed (policies_diff d)) \<longrightarrow>
            (\<exists>k ra rb. last_row policy_key (policies a) k ra \<and> last_row policy_key (policies b) k rb
               \<and> e = [(''key'', JStr k), (''valueA'', JStr (policy_val ra)),
                      (''valueB'', JStr (policy_val rb))])"
    unfolding parts(6) diffPolicies_def using keyed_changed_entry by blast
  moreover have "e \<in> set (changed (functions_diff d)) \<longrightarrow>
            (\<exists>k ra rb. last_row function_key (db_functions a) k ra
               \<and> last_row function_key (db_functions b) k rb
               \<and> e = [(''key'', JStr k), (''signatureA'', JStr (function_val ra)),
                      (''signatureB'', JStr (function_val rb))])"
    unfolding parts(7) diffFunctions_def using keyed_changed_entry by blast
  moreover have "e \<in> set (changed (triggers_diff d)) \<longrightarrow>
            (\<exists>k ra rb. last_row trigger_key (triggers a) k ra \<and> last_row trigger_key (triggers b) k rb
               \<and> e = [(''key'', JStr k), (''valueA'', JStr (trigger_val ra)),
                      (''valueB'', JStr (trigger_val rb))])"
    unfolding parts(8) diffTriggers_def using keyed_changed_entry by blast
  ultimately show ?thesis by blast
qed

theorem changed_entry_shape_witness:
  "diffSchemas staging production ''staging'' ''production'' = Inr staging_vs_production
   \<and> [(''key'', JStr ''orders.orders_user_fk''), (''valueA'', JStr ''tenant_id->users.tenant_id''),
       (''valueB'', JStr ''user_id->users.id'')]
        \<in> set (changed (foreignKeys_diff staging_vs_production))
   \<and> (\<exists>k ra rb. last_row fk_key (foreignKeys staging) k ra
         \<and> last_row fk_key (foreignKeys production) k rb
         \<and> [(''key'', JStr ''orders.orders_user_fk''), (''valueA'', JStr ''tenant_id->users.tenant_id''),
             (''valueB'', JStr ''user_id->users.id'')]
            = [(''key'', JStr k), (''valueA'', JStr (fk_val ra)), (''valueB'', JStr (fk_val rb))])"
proof -
  let ?e = "[(''key'', JStr ''orders.orders_user_fk''), (''valueA'', JStr ''tenant_id->users.tenant_id''),
             (''valueB'', JStr ''user_id->users.id'')]"
  have mem: "?e \<in> set (changed (foreignKeys_diff staging_vs_production))"
    by (simp add: staging_vs_production_def)
  from changed_entry_shape [OF staging_vs_production_eq, where e = ?e] mem
  have "\<exists>k ra rb. last_row fk_key (foreignKeys staging) k ra
         \<and> last_row fk_key (foreignKeys production) k rb
         \<and> ?e = [(''key'', JStr k), (''valueA'', JStr (fk_val ra)), (''valueB'', JStr (fk_val rb))]"
    by blast
  with mem staging_vs_production_eq show ?thesis by blast
qed

text \<open>
  Claim C5: in the keyed routines, when several rows of one snapshot have the same
  identity key, the last of them gives the comparison value for that key; the routines
  are total, and a key is reported at most once.
\<close>

theorem keyed_routines_last_wins:
  "last_wins index_key indexdef ''defA'' ''defB'' (indexes a) (indexes b) (diffIndexes a b)
   \<and> last_wins fk_key fk_val ''valueA'' ''valueB'' (foreignKeys a) (foreignKeys b)
       (diffForeignKeys a b)
   \<and> last_wins policy_key policy_val ''valueA'' ''valueB'' (policies a) (policies b)
       (diffPolicies a b)
   \<and> last_wins function_key function_val ''signatureA'' ''signatureB''
       (db_functions a) (db_functions b) (diffFunctions a b)
   \<and> last_wins trigger_key trigger_val ''valueA'' ''valueB'' (triggers a) (triggers b)
       (diffTriggers a b)"
  unfolding diffIndexes_def diffForeignKeys_def diffPolicies_def diffFunctions_def diffTriggers_def
  by (intro conjI keyed_last_wins)

theorem keyed_routines_last_wins_witness:
  "foreignKeys staging = [fk_row1, fk_row2] \<and> fk_key fk_row1 = fk_key fk_row2
   \<and> last_row fk_key (foreignKeys staging) ''orders.orders_user_fk'' fk_row2
   \<and> last_row fk_key (foreignKeys production) ''orders.orders_user_fk'' fk_row1
   \<and> entries_for ''orders.orders_user_fk'' (diffForeignKeys staging production)
       = [[(''key'', JStr ''orders.orders_user_fk''),
           (''valueA'', JStr ''tenant_id->users.tenant_id''),
           (''valueB'', JStr ''user_id->users.id'')]]"
proof -
  have rows: "foreignKeys staging = [fk_row1, fk_row2] \<and> fk_key fk_row1 = fk_key fk_row2"
    by (simp add: staging_def fk_key_def fk_row1_def fk_row2_def)
  have ra: "last_row fk_key (foreignKeys staging) ''orders.orders_user_fk'' fk_row2"
    unfolding last_row_def
    by (intro exI [of _ 1]) (simp add: staging_def fk_key_def fk_row2_def)
  have rb: "last_row fk_key (foreignKeys production) ''orders.orders_user_fk'' fk_row1"
    unfolding last_row_def
    by (intro exI [of _ 0]) (auto simp: production_def fk_key_def fk_row1_def)
  have vals: "fk_val fk_row2 = ''tenant_id->users.tenant_id'' \<and> fk_val fk_row1 = ''user_id->users.id''"
    by (simp add: fk_val_def fk_row1_def fk_row2_def)
  from keyed_routines_last_wins [of staging production]
  have "last_wins fk_key fk_val ''valueA'' ''valueB'' (foreignKeys staging) (foreignKeys production)
       (diffForeignKeys staging production)"
    by blast
  with ra rb have "entries_for ''orders.orders_user_fk'' (diffForeignKeys staging production) =
             (if fk_val fk_row2 \<noteq> fk_val fk_row1
              then [[(''key'', JStr ''orders.orders_user_fk''), (''valueA'', JStr (fk_val fk_row2)),
                     (''valueB'', JStr (fk_val fk_row1))]]
              else [])"
    unfolding last_wins_def by blast
  with rows ra rb vals show ?thesis by simp
qed

subsection \<open>Enum types present on both sides\<close>

lemma changed_for_enum:
  assumes "diffEnums a b = Inr r"
    and "n \<in> enum_name ` set (enums a)" and "n \<in> enum_name ` set (enums b)"
  shows "filter (\<lambda>ch. name ch = n) (changed r) =
     (if sort (values_of n (enums a)) = sort (values_of n (enums b)) then []
      else [\<lparr> name = n, valuesA = sort (values_of n (enums a)),
               valuesB = sort (values_of n (enums b)) \<rparr>])"
proof -
  from diffEnums_Inr(1) [OF assms(1)] obtain ns where ns: "distinct ns"
    "set ns = enum_name ` set (enums a)"
    and ch: "changed r = enum_changes (enums a) (enums b) ns"
    by blast
  let ?mk = "\<lambda>n. \<lparr> name = n, valuesA = sort (values_of n (enums a)),
                      valuesB = sort (values_of n (enums b)) \<rparr>"
  let ?P = "\<lambda>n. n \<in> enum_name ` set (enums b)
                \<and> sort (values_of n (enums a)) \<noteq> sort (values_of n (enums b))"
  have "filter (\<lambda>ch. name ch = n) (map ?mk (filter ?P ns))
      = (if n \<in> set ns \<and> ?P n then [?mk n] else [])"
    by (rule filter_map_pred_distinct [OF ns(1)]) simp
  then show ?thesis using assms(2,3) ns(2) by (simp add: ch enum_changes_def)
qed

text \<open>
  Claim C8 says that a type name whose member values are equal as sets on the two sides
  gets no changed entry. The engine compares the sorted value sequences, which keeps
  repetitions: a value listed twice on one side and once on the other is a change.
\<close>

theorem repeated_enum_value_is_a_change:
  "set (values_of ''status''
          (enums (no_rows\<lparr>enums := [\<lparr> enum_name = ''status'', enum_value = ''active'' \<rparr>,
                                    \<lparr> enum_name = ''status'', enum_value = ''active'' \<rparr>]\<rparr>)))
     = set (values_of ''status''
          (enums (no_rows\<lparr>enums := [\<lparr> enum_name = ''status'', enum_value = ''active'' \<rparr>]\<rparr>)))
   \<and> map_sum id (\<lambda>d. changed (enums_diff d))
        (diffSchemas
           (no_rows\<lparr>enums := [\<lparr> enum_name = ''status'', enum_value = ''active'' \<rparr>,
                                \<lparr> enum_name = ''status'', enum_value = ''active'' \<rparr>]\<rparr>)
           (no_rows\<lparr>enums := [\<lparr> enum_name = ''status'', enum_value = ''active'' \<rparr>]\<rparr>)
           ''A'' ''B'')
       = Inr [\<lparr> name = ''status'', valuesA = [''active'', ''active''], valuesB = [''active''] \<rparr>]"
proof -
  have "values_of ''status''
          (enums (no_rows\<lparr>enums := [\<lparr> enum_name = ''status'', enum_value = ''active'' \<rparr>,
                                    \<lparr> enum_name = ''status'', enum_value = ''active'' \<rparr>]\<rparr>))
        = [''active'', ''active'']"
    by (simp add: values_of_def no_rows_def)
  moreover have "values_of ''status''
          (enums (no_rows\<lparr>enums := [\<lparr> enum_name = ''status'', enum_value = ''active'' \<rparr>]\<rparr>))
        = [''active'']"
    by (simp add: values_of_def no_rows_def)
  moreover have "map_sum id (\<lambda>d. changed (enums_diff d))
        (diffSchemas
           (no_rows\<lparr>enums := [\<lparr> enum_name = ''status'', enum_value = ''active'' \<rparr>,
                                \<lparr> enum_name = ''status'', enum_value = ''active'' \<rparr>]\<rparr>)
           (no_rows\<lparr>enums := [\<lparr> enum_name = ''status'', enum_value = ''active'' \<rparr>]\<rparr>)
           ''A'' ''B'')
       = Inr [\<lparr> name = ''status'', valuesA = [''active'', ''active''], valuesB = [''active''] \<rparr>]"
    by code_simp
  ultimately show ?thesis by simp
qed

text \<open>
  Claim C8, amended: for an enum type name present in both snapshots, no changed entry
  is produced when the two member-value sequences are equal as multisets (the same
  values, each as often, in any order), and otherwise exactly one, carrying the two
  sequences sorted lexicographically. Where neither side repeats a value, equality as
  multisets is equality as sets.
\<close>

theorem enum_changed_iff_multisets_differ:
  assumes "diffSchemas a b la lb = Inr d"
    and "n \<in> enum_name ` set (enums a)" and "n \<in> enum_name ` set (enums b)"
  shows "filter (\<lambda>ch. name ch = n) (changed (enums_diff d)) =
     (if mset (values_of n (enums a)) = mset (values_of n (enums b)) then []
      else [\<lparr> name = n, valuesA = sort (values_of n (enums a)),
               valuesB = sort (values_of n (enums b)) \<rparr>])
   \<and> (distinct (values_of n (enums a)) \<and> distinct (values_of n (enums b)) \<longrightarrow>
        (mset (values_of n (enums a)) = mset (values_of n (enums b))
           \<longleftrightarrow> set (values_of n (enums a)) = set (values_of n (enums b))))"
proof -
  have "filter (\<lambda>ch. name ch = n) (changed (enums_diff d)) =
     (if mset (values_of n (enums a)) = mset (values_of n (enums b)) then []
      else [\<lparr> name = n, valuesA = sort (values_of n (enums a)),
               valuesB = sort (values_of n (enums b)) \<rparr>])"
    using changed_for_enum [OF diffSchemas_Inr(2) [OF assms(1)] assms(2,3)]
    by (simp only: sort_eq_iff_mset)
  moreover have "distinct (values_of n (enums a)) \<and> distinct (values_of n (enums b)) \<longrightarrow>
        (mset (values_of n (enums a)) = mset (values_of n (enums b))
           \<longleftrightarrow> set (values_of n (enums a)) = set (values_of n (enums b)))"
    by (auto simp: set_eq_iff_mset_eq_distinct)
  ultimately show ?thesis by (rule conjI)
qed

theorem enum_changed_iff_multisets_differ_witness:
  "diffSchemas staging production ''staging'' ''production'' = Inr staging_vs_production
   \<and> ''mood'' \<in> enum_name ` set (enums staging) \<and> ''mood'' \<in> enum_name ` set (enums production)
   \<and> values_of ''mood'' (enums staging) = [''sad'', ''happy'']
   \<and> values_of ''mood'' (enums production) = [''happy'', ''sad'']
   \<and> filter (\<lambda>ch. name ch = ''mood'') (changed (enums_diff staging_vs_production)) = []
   \<and> ''status'' \<in> enum_name ` set (enums staging) \<and> ''status'' \<in> enum_name ` set (enums production)
   \<and> filter (\<lambda>ch. name ch = ''status'') (changed (enums_diff staging_vs_production))
       = [\<lparr> name = ''status'', valuesA = [''active'', ''inactive''],
             valuesB = [''active'', ''archived'', ''inactive''] \<rparr>]"
proof -
  have mood: "''mood'' \<in> enum_name ` set (enums staging) \<and> ''mood'' \<in> enum_name ` set (enums production)"
    by (simp add: staging_def production_def)
  have status: "''status'' \<in> enum_name ` set (enums staging)
      \<and> ''status'' \<in> enum_name ` set (enums production)"
    by (simp add: staging_def production_def)
  have vals: "values_of ''mood'' (enums staging) = [''sad'', ''happy'']
      \<and> values_of ''mood'' (enums production) = [''happy'', ''sad'']
      \<and> values_of ''status'' (enums staging) = [''active'', ''inactive'']
      \<and> values_of ''status'' (enums production) = [''inactive'', ''active'', ''archived'']"
    by (simp add: values_of_def staging_def production_def)
  from enum_changed_iff_multisets_differ
         [OF staging_vs_production_eq mood [THEN conjunct1] mood [THEN conjunct2]]
  have m: "filter (\<lambda>ch. name ch = ''mood'') (changed (enums_diff staging_vs_production)) = []"
    by (simp add: vals)
  from enum_changed_iff_multisets_differ
         [OF staging_vs_production_eq status [THEN conjunct1] status [THEN conjunct2]]
  have s: "filter (\<lambda>ch. name ch = ''status'') (changed (enums_diff staging_vs_production))
       = [\<lparr> name = ''status'', valuesA = [''active'', ''inactive''],
             valuesB = [''active'', ''archived'', ''inactive''] \<rparr>]"
    by (simp add: vals)
  from m s mood status vals staging_vs_production_eq show ?thesis by simp
qed

end
